theory Spec2Isabelle
  imports Main "HOL-Library.Word" "HOL-Library.Char_ord" "HOL-Library.List_Lexorder"
    "HOL-Library.Multiset"
begin

section \<open>The scanner of \<^verbatim>\<open>internal/archiver/scanner.go\<close>\<close>

text \<open>
  The scanner walks a logical tree of backup targets and, below every leaf, the real
  file system. It calls four collaborators: the lazy metadata of an entry (\<^verbatim>\<open>Name\<close>,
  \<^verbatim>\<open>Path\<close>, \<^verbatim>\<open>Init\<close>, \<^verbatim>\<open>Mode\<close>, \<^verbatim>\<open>Size\<close>, \<^verbatim>\<open>Children\<close>, \<^verbatim>\<open>Abs\<close>), the selection
  policies, the error policy and the result callback. The embedding fixes a snapshot of
  the file system as a finite tree holding what each of these calls returns, passes the
  statistics by value as the Go code does, and records the calls that cross the
  boundary in a trace.
\<close>

subsection \<open>Data\<close>

text \<open>A Go \<^verbatim>\<open>error\<close> value; \<^verbatim>\<open>nil\<close> is \<open>None\<close> of \<open>err option\<close>.\<close>

type_synonym err = string

text \<open>
  \<^verbatim>\<open>os.FileMode\<close>, as far as the scanner looks at it: \<^verbatim>\<open>IsRegular()\<close> and \<^verbatim>\<open>IsDir()\<close>
  exclude each other, everything else is the \<^verbatim>\<open>default\<close> branch of the switch.
\<close>

datatype FileMode = ModeRegular | ModeDir | ModeOther

definition IsRegular :: "FileMode \<Rightarrow> bool" where
  "IsRegular m = (m = ModeRegular)"

definition IsDir :: "FileMode \<Rightarrow> bool" where
  "IsDir m = (m = ModeDir)"

text \<open>
  Modelled from the spec: the interface \<^verbatim>\<open>restic.LazyFileMetadata\<close> is declared outside
  this file. One value is one entry of the file system snapshot, and its fields are the
  results of the methods of the interface: \<open>Init\<close> is the error of \<^verbatim>\<open>Init()\<close>; \<open>Size\<close> is
  \<^verbatim>\<open>uint64(target.Size())\<close>; \<open>Children\<close> and \<open>ChildrenErr\<close> are the two results of
  \<^verbatim>\<open>Children()\<close>, the list in the order the provider enumerates it.
\<close>

datatype LazyFileMetadata =
  LazyFileMetadata (Name: string) (Path: string) (Init: "err option") (Mode: FileMode)
    (Size: "64 word") (Children: "LazyFileMetadata list") (ChildrenErr: "err option")

text \<open>
  Go's \<^verbatim>\<open>uint\<close> is 32 or 64 bits wide, as the platform the program is built for has it.
  The width is the type parameter \<open>'u\<close> of everything below; nothing is assumed about it.
\<close>

type_synonym 'u uint = "'u word"

text \<open>
  \<^verbatim>\<open>ScanStats\<close>. \<^verbatim>\<open>Files\<close>, \<^verbatim>\<open>Dirs\<close> and \<^verbatim>\<open>Others\<close> are \<^verbatim>\<open>uint\<close>, the type \<open>'uint\<close> of the
  record, always a \<open>'u uint\<close>; \<^verbatim>\<open>Bytes\<close> is a \<^verbatim>\<open>uint64\<close> on every platform. All arithmetic
  wraps around.
\<close>

record 'uint ScanStats =
  Files :: "'uint"
  Dirs :: "'uint"
  Others :: "'uint"
  Bytes :: "64 word"

text \<open>The zero value \<^verbatim>\<open>ScanStats{}\<close>.\<close>

definition ScanStats0 :: "'u::len uint ScanStats" where
  "ScanStats0 = \<lparr>Files = 0, Dirs = 0, Others = 0, Bytes = 0\<rparr>"

text \<open>
  The policies of a \<^verbatim>\<open>Scanner\<close>, as pure functions. The \<^verbatim>\<open>Result\<close> callback returns
  nothing, so only its calls are observable; they are recorded in the trace. The
  \<^verbatim>\<open>Frontend\<close> field is never used by the code of this file.
\<close>

record Scanner =
  SelectByName :: "string \<Rightarrow> bool"
  Select :: "LazyFileMetadata \<Rightarrow> bool"
  Error :: "string \<Rightarrow> err \<Rightarrow> err option"

text \<open>\<^verbatim>\<open>NewScanner\<close>: select everything, hand every error back.\<close>

definition NewScanner :: Scanner where
  "NewScanner = \<lparr>SelectByName = (\<lambda>_. True), Select = (\<lambda>_. True),
     Error = (\<lambda>_ err. Some err)\<rparr>"

text \<open>
  The calls that leave the scanner: \<^verbatim>\<open>Abs()\<close> on a leaf of the logical tree (with its
  error), \<^verbatim>\<open>Init()\<close> and \<^verbatim>\<open>Children()\<close> on an entry, the \<^verbatim>\<open>Error\<close> policy and the
  \<^verbatim>\<open>Result\<close> callback.
\<close>

datatype 'uint event =
    AbsCall string "err option"
  | InitCall string
  | ChildrenCall string
  | ErrorCall string err
  | ResultCall string "'uint ScanStats"

text \<open>
  The world outside the scanner. A context is cancelled at some moment and stays
  cancelled; for a sequential scan that moment is fixed by the number of
  \<^verbatim>\<open>ctx.Err()\<close> calls that still saw \<^verbatim>\<open>nil\<close>. \<open>cancel_after = Some k\<close> says that the first
  \<open>k\<close> calls return \<^verbatim>\<open>nil\<close> and all later ones do not; \<open>None\<close> is a context that is never
  cancelled. \<open>polls\<close> counts the calls made so far.
\<close>

record 'uint world =
  cancel_after :: "nat option"
  polls :: nat
  trace :: "'uint event list"

definition ctx_Err :: "'u::len uint world \<Rightarrow> bool \<times> 'u uint world" where
  "ctx_Err w =
     ((case cancel_after w of None \<Rightarrow> False | Some k \<Rightarrow> k \<le> polls w),
      w\<lparr>polls := Suc (polls w)\<rparr>)"

definition emit :: "'u::len uint event \<Rightarrow> 'u uint world \<Rightarrow> 'u uint world" where
  "emit ev w = w\<lparr>trace := trace w @ [ev]\<rparr>"

subsection \<open>\<^verbatim>\<open>scan\<close>: the walk below one target\<close>

lemma size_list_insort_key:
  "size_list g (insort_key f x xs) = Suc (g x + size_list g xs)"
  by (induction xs) auto

lemma size_list_sort_key: "size_list g (sort_key f xs) = size_list g xs"
  by (induction xs) (auto simp: size_list_insort_key)

lemma size_Children: "size_list size (Children t) < size t"
  by (cases t) simp

text \<open>
  \<^verbatim>\<open>scan\<close> returns both of its results, the statistics and the error, as the Go function
  does. \<open>scan_children\<close> is the loop over the sorted children. Strings are compared
  byte by byte, which is the order of Go's \<^verbatim>\<open><\<close> on strings. \<^verbatim>\<open>sort.Slice\<close> promises no
  order among children of equal name, and \<open>sort_key\<close> keeps them in the order of the
  listing: the function below follows the code for the directories whose children have
  different names, as the entries of a directory of a file system do. The statements
  about the order of the calls assume that the names differ.
\<close>

function scan :: "Scanner \<Rightarrow> 'u::len uint world \<Rightarrow> 'u uint ScanStats \<Rightarrow> LazyFileMetadata
      \<Rightarrow> 'u uint world \<times> 'u uint ScanStats \<times> err option"
  and scan_children :: "Scanner \<Rightarrow> 'u::len uint world \<Rightarrow> 'u uint ScanStats \<Rightarrow> LazyFileMetadata list
      \<Rightarrow> 'u uint world \<times> 'u uint ScanStats \<times> err option"
where
  "scan s w stats target =
     (case ctx_Err w of
        (True, w1) \<Rightarrow> (w1, stats, None)
      | (False, w1) \<Rightarrow>
          if \<not> SelectByName s (Name target) then (w1, stats, None)
          else
            (case Init target of
               Some err \<Rightarrow>
                 (emit (ErrorCall (Path target) err) (emit (InitCall (Path target)) w1),
                  stats, Error s (Path target) err)
             | None \<Rightarrow>
                 if \<not> Select s target then (emit (InitCall (Path target)) w1, stats, None)
                 else if IsRegular (Mode target) then
                   (let stats1 = stats\<lparr>Files := Files stats + 1,
                                         Bytes := Bytes stats + Size target\<rparr>
                    in (emit (ResultCall (Path target) stats1)
                          (emit (InitCall (Path target)) w1), stats1, None))
                 else if IsDir (Mode target) then
                   (case ChildrenErr target of
                      Some err \<Rightarrow>
                        (emit (ErrorCall (Path target) err)
                           (emit (ChildrenCall (Path target))
                              (emit (InitCall (Path target)) w1)),
                         stats, Error s (Path target) err)
                    | None \<Rightarrow>
                        (case scan_children s
                                (emit (ChildrenCall (Path target))
                                   (emit (InitCall (Path target)) w1))
                                stats (sort_key Name (Children target)) of
                           (w2, stats2, Some err) \<Rightarrow> (w2, stats2, Some err)
                         | (w2, stats2, None) \<Rightarrow>
                             (let stats3 = stats2\<lparr>Dirs := Dirs stats2 + 1\<rparr>
                              in (emit (ResultCall (Path target) stats3) w2, stats3, None))))
                 else
                   (let stats1 = stats\<lparr>Others := Others stats + 1\<rparr>
                    in (emit (ResultCall (Path target) stats1)
                          (emit (InitCall (Path target)) w1), stats1, None))))"
| "scan_children s w stats [] = (w, stats, None)"
| "scan_children s w stats (child # children) =
     (case scan s w stats child of
        (w1, stats1, Some err) \<Rightarrow> (w1, stats1, Some err)
      | (w1, stats1, None) \<Rightarrow> scan_children s w1 stats1 children)"
  by pat_completeness auto
termination
  apply (relation "measure (\<lambda>x. case x of
            Inl (s, w, stats, target) \<Rightarrow> size target
          | Inr (s, w, stats, children) \<Rightarrow> size_list size children)")
  apply (auto simp: size_list_sort_key size_Children)
  done

declare scan.simps [simp del]

subsection \<open>\<^verbatim>\<open>scanTree\<close> and \<^verbatim>\<open>Scan\<close>: the walk over the logical tree\<close>

text \<open>
  Modelled from the spec: the target a leaf of the logical tree wraps is a
  \<^verbatim>\<open>restic.LazyFileMetadata\<close>, declared outside this file. The scanner calls \<^verbatim>\<open>Abs()\<close> on
  it and nothing else; \<open>Abs\<close> is the result, the entry to scan or an error, and
  \<open>TargetPath\<close> names the target in the trace.
\<close>

datatype LazyTarget = LazyTarget (TargetPath: string) (Abs: "err + LazyFileMetadata")

text \<open>
  Modelled from the spec: the type \<^verbatim>\<open>Tree\<close> of the archiver package, with \<^verbatim>\<open>Leaf()\<close>,
  \<^verbatim>\<open>Nodes\<close> and \<^verbatim>\<open>FileMetadata\<close>, is declared outside this file. A tree is a leaf wrapping
  one target, or a node mapping child names to subtrees. The map is an association list,
  whose order stands for the iteration order of the Go map.
\<close>

datatype Tree = Leaf LazyTarget | Node "(string \<times> Tree) list"

text \<open>
  Modelled from the spec: \<^verbatim>\<open>NodeNames()\<close> is declared outside this file. It returns the
  keys of the map of a node in lexicographic order.
\<close>

definition NodeNames :: "(string \<times> Tree) list \<Rightarrow> string list" where
  "NodeNames nodes = sort (remdups (map fst nodes))"

lemma size_map_of: "map_of nodes name = Some t \<Longrightarrow> size t < size (Node nodes)"
  by (induction nodes) (auto split: if_splits)

lemma NodeNames_found: "name \<in> set (NodeNames nodes) \<Longrightarrow> map_of nodes name \<noteq> None"
  by (simp add: NodeNames_def map_of_eq_None_iff)

text \<open>
  \<open>scanTree_nodes\<close> is the loop over \<^verbatim>\<open>tree.NodeNames()\<close>. A name of \<open>NodeNames\<close> is a key
  of the map, so the lookup \<^verbatim>\<open>tree.Nodes[name]\<close> finds a subtree (\<open>NodeNames_found\<close>); the
  other branch of the lookup is never taken.
\<close>

function scanTree :: "Scanner \<Rightarrow> 'u::len uint world \<Rightarrow> 'u uint ScanStats \<Rightarrow> Tree
      \<Rightarrow> 'u uint world \<times> 'u uint ScanStats \<times> err option"
  and scanTree_nodes :: "Scanner \<Rightarrow> 'u::len uint world \<Rightarrow> 'u uint ScanStats \<Rightarrow> (string \<times> Tree) list
      \<Rightarrow> string list \<Rightarrow> 'u uint world \<times> 'u uint ScanStats \<times> err option"
where
  "scanTree s w stats (Leaf fm) =
     (case Abs fm of
        Inl err \<Rightarrow> (emit (AbsCall (TargetPath fm) (Some err)) w, ScanStats0, Some err)
      | Inr abstarget \<Rightarrow>
          (case scan s (emit (AbsCall (TargetPath fm) None) w) stats abstarget of
             (w1, stats1, Some err) \<Rightarrow> (w1, ScanStats0, Some err)
           | (w1, stats1, None) \<Rightarrow> (w1, stats1, None)))"
| "scanTree s w stats (Node nodes) = scanTree_nodes s w stats nodes (NodeNames nodes)"
| "scanTree_nodes s w stats nodes [] = (w, stats, None)"
| "scanTree_nodes s w stats nodes (name # names) =
     (case map_of nodes name of
        None \<Rightarrow> scanTree_nodes s w stats nodes names
      | Some t \<Rightarrow>
          (case scanTree s w stats t of
             (w1, stats1, Some err) \<Rightarrow> (w1, ScanStats0, Some err)
           | (w1, stats1, None) \<Rightarrow>
               (case ctx_Err w1 of
                  (True, w2) \<Rightarrow> (w2, stats1, None)
                | (False, w2) \<Rightarrow> scanTree_nodes s w2 stats1 nodes names)))"
  by pat_completeness auto
termination
  apply (relation "measures [\<lambda>x. case x of
            Inl (s, w, stats, t) \<Rightarrow> 2 * size t + 1
          | Inr (s, w, stats, nodes, names) \<Rightarrow> 2 * size (Node nodes),
          \<lambda>x. case x of Inl _ \<Rightarrow> 0 | Inr (s, w, stats, nodes, names) \<Rightarrow> length names]")
  apply (auto dest: size_map_of)
  done

text \<open>
  \<^verbatim>\<open>Scan\<close>. The two functions that build the tree, \<^verbatim>\<open>resolveRelativeTargets\<close> and
  \<^verbatim>\<open>newTree\<close>, are declared outside this file and are parameters here. The result is the
  world after the scan and the error \<^verbatim>\<open>Scan\<close> returns.
\<close>

definition Scan :: "(LazyTarget list \<Rightarrow> err + LazyTarget list)
      \<Rightarrow> (LazyTarget list \<Rightarrow> err + Tree)
      \<Rightarrow> Scanner \<Rightarrow> 'u::len uint world \<Rightarrow> LazyTarget list \<Rightarrow> 'u uint world \<times> err option" where
  "Scan resolveRelativeTargets newTree s w targets =
     (case resolveRelativeTargets targets of
        Inl err \<Rightarrow> (w, Some err)
      | Inr cleanTargets \<Rightarrow>
          (case newTree cleanTargets of
             Inl err \<Rightarrow> (w, Some err)
           | Inr tree \<Rightarrow>
               (case scanTree s w ScanStats0 tree of
                  (w1, stats, Some err) \<Rightarrow> (w1, Some err)
                | (w1, stats, None) \<Rightarrow> (emit (ResultCall [] stats) w1, None))))"

subsection \<open>Vocabulary for the statements\<close>

text \<open>The two results of \<^verbatim>\<open>ctx.Err() != nil\<close>: what it answers and the world afterwards.\<close>

definition cancelled :: "'u::len uint world \<Rightarrow> bool" where
  "cancelled w = fst (ctx_Err w)"

definition tick :: "'u::len uint world \<Rightarrow> 'u uint world" where
  "tick w = snd (ctx_Err w)"

definition entered :: "LazyFileMetadata \<Rightarrow> 'u::len uint world \<Rightarrow> 'u uint world" where
  "entered t w = emit (InitCall (Path t)) (tick w)"

definition listed :: "LazyFileMetadata \<Rightarrow> 'u::len uint world \<Rightarrow> 'u uint world" where
  "listed t w = emit (ChildrenCall (Path t)) (entered t w)"

text \<open>The events a call has added to the trace.\<close>

definition new_events :: "'u::len uint world \<Rightarrow> 'u uint world \<Rightarrow> 'u uint event list" where
  "new_events w w' = drop (length (trace w)) (trace w')"

definition frame :: "'u::len uint world \<Rightarrow> 'u uint world \<Rightarrow> bool" where
  "frame w w' \<longleftrightarrow> cancel_after w' = cancel_after w \<and> polls w \<le> polls w' \<and>
     trace w' = trace w @ new_events w w'"

text \<open>The path an event is about.\<close>

fun event_path :: "'u::len uint event \<Rightarrow> string" where
  "event_path (AbsCall p e) = p"
| "event_path (InitCall p) = p"
| "event_path (ChildrenCall p) = p"
| "event_path (ErrorCall p e) = p"
| "event_path (ResultCall p st) = p"

text \<open>
  The paths of the entries of a subtree that are reached through entries accepted by
  \<^verbatim>\<open>SelectByName\<close> only: the walk is cut below every rejected name.
\<close>

fun reach :: "Scanner \<Rightarrow> LazyFileMetadata \<Rightarrow> string set" where
  "reach s (LazyFileMetadata n p i m sz cs ce) =
     (if SelectByName s n then insert p (\<Union>c \<in> set cs. reach s c) else {})"

text \<open>
  The tree \<^verbatim>\<open>Scan\<close> walks: what the two builders return for the targets.
\<close>

definition build_tree :: "(LazyTarget list \<Rightarrow> err + LazyTarget list)
      \<Rightarrow> (LazyTarget list \<Rightarrow> err + Tree) \<Rightarrow> LazyTarget list \<Rightarrow> err + Tree" where
  "build_tree resolveRelativeTargets newTree targets =
     (case resolveRelativeTargets targets of Inl err \<Rightarrow> Inl err
      | Inr cleanTargets \<Rightarrow> newTree cleanTargets)"

text \<open>
  The error, if any, with which an event ends the scan: a failed \<^verbatim>\<open>Abs()\<close>, or an
  \<^verbatim>\<open>Error\<close> policy answering with an error. A list of events is harmless when none of
  them does; it \<open>ends_with\<close> the result \<open>r\<close> when it is harmless and \<open>r\<close> is \<^verbatim>\<open>nil\<close>, or its
  last event is the only one that is not, and has produced \<open>r\<close>.
\<close>

fun fatal_err :: "Scanner \<Rightarrow> 'u::len uint event \<Rightarrow> err option" where
  "fatal_err s (ErrorCall p e) = Error s p e"
| "fatal_err s (AbsCall p oe) = oe"
| "fatal_err s (InitCall p) = None"
| "fatal_err s (ChildrenCall p) = None"
| "fatal_err s (ResultCall p st) = None"

definition harmless :: "Scanner \<Rightarrow> 'u::len uint event list \<Rightarrow> bool" where
  "harmless s evs = list_all (\<lambda>ev. fatal_err s ev = None) evs"

definition ends_with :: "Scanner \<Rightarrow> 'u::len uint event list \<Rightarrow> err option \<Rightarrow> bool" where
  "ends_with s evs r =
     (if r = None then harmless s evs
      else evs \<noteq> [] \<and> harmless s (butlast evs) \<and> fatal_err s (last evs) = r)"

text \<open>
  Cancellation has been observed in a world when some \<^verbatim>\<open>ctx.Err()\<close> call made so far has
  returned an error.
\<close>

definition observed :: "'u::len uint world \<Rightarrow> bool" where
  "observed w = (case cancel_after w of None \<Rightarrow> False | Some k \<Rightarrow> k < polls w)"

text \<open>
  The statistics handed to the \<^verbatim>\<open>Result\<close> callback, in the order of the calls, and the
  most recent of them (the statistics \<open>st\<close> the call started from, when there is none).
\<close>

fun result_stats :: "'u::len uint event list \<Rightarrow> 'u uint ScanStats list" where
  "result_stats [] = []"
| "result_stats (ResultCall p st # evs) = st # result_stats evs"
| "result_stats (ev # evs) = result_stats evs"

definition latest :: "'u::len uint ScanStats \<Rightarrow> 'u uint event list \<Rightarrow> 'u uint ScanStats" where
  "latest st evs = last (st # result_stats evs)"

text \<open>The events of \<^verbatim>\<open>Abs()\<close> calls.\<close>

fun is_abs :: "'u::len uint event \<Rightarrow> bool" where
  "is_abs (AbsCall p oe) = True"
| "is_abs ev = False"

text \<open>The paths handed to the \<^verbatim>\<open>Result\<close> callback, in the order of the calls.\<close>

fun result_paths :: "'u::len uint event list \<Rightarrow> string list" where
  "result_paths [] = []"
| "result_paths (ResultCall p st # evs) = p # result_paths evs"
| "result_paths (ev # evs) = result_paths evs"

text \<open>
  A loop that scans the entries \<open>cs\<close> one after the other, threading the world and the
  statistics: \<open>rs\<close> are the results of the calls of \<^verbatim>\<open>scan\<close> it makes, in the order of
  the calls. There is at most one call for each entry, in the order of \<open>cs\<close>; every call
  starts from the world and the statistics that the call before it returned (the first
  one from \<open>start\<close>), and is made only if the call before it returned \<^verbatim>\<open>nil\<close>.
\<close>

definition threaded :: "Scanner \<Rightarrow> 'u::len uint world \<times> 'u uint ScanStats \<times> err option
      \<Rightarrow> LazyFileMetadata list
      \<Rightarrow> ('u uint world \<times> 'u uint ScanStats \<times> err option) list \<Rightarrow> bool" where
  "threaded s start cs rs \<longleftrightarrow>
     length rs \<le> length cs \<and>
     list_all (\<lambda>p. snd (snd p) = None) (butlast (start # rs)) \<and>
     rs = map (\<lambda>(p, c). scan s (fst p) (fst (snd p)) c) (zip (butlast (start # rs)) cs)"

text \<open>Statistics are added field by field.\<close>

definition add_stats :: "'u::len uint ScanStats \<Rightarrow> 'u uint ScanStats \<Rightarrow> 'u uint ScanStats" where
  "add_stats a b = \<lparr>Files = Files a + Files b, Dirs = Dirs a + Dirs b,
     Others = Others a + Others b, Bytes = Bytes a + Bytes b\<rparr>"

definition sum_stats :: "'u::len uint ScanStats list \<Rightarrow> 'u uint ScanStats" where
  "sum_stats xs = foldr add_stats xs ScanStats0"

text \<open>
  What the specification says an entry adds to the statistics. An entry that is rejected
  by \<^verbatim>\<open>SelectByName\<close>, whose metadata cannot be initialised, or that is rejected by
  \<^verbatim>\<open>Select\<close>, adds nothing. A regular file adds one file and its size; a directory whose
  listing fails adds nothing; a directory that can be listed adds what its children add,
  and one directory; anything else adds one to the others.
\<close>

fun contribution :: "Scanner \<Rightarrow> LazyFileMetadata \<Rightarrow> 'u::len uint ScanStats" where
  "contribution s (LazyFileMetadata n p i m sz cs ce) =
     (if \<not> SelectByName s n \<or> i \<noteq> None \<or> \<not> Select s (LazyFileMetadata n p i m sz cs ce)
      then ScanStats0
      else case m of
          ModeRegular \<Rightarrow> \<lparr>Files = 1, Dirs = 0, Others = 0, Bytes = sz\<rparr>
        | ModeDir \<Rightarrow>
            if ce \<noteq> None then ScanStats0
            else add_stats (sum_stats (map (contribution s) cs))
                   \<lparr>Files = 0, Dirs = 1, Others = 0, Bytes = 0\<rparr>
        | ModeOther \<Rightarrow> \<lparr>Files = 0, Dirs = 0, Others = 1, Bytes = 0\<rparr>)"

text \<open>
  The targets below the leaves of a logical tree, in the order of the walk, and what
  they add together.
\<close>

function leaf_targets :: "Tree \<Rightarrow> LazyFileMetadata list" where
  "leaf_targets (Leaf fm) = (case Abs fm of Inl err \<Rightarrow> [] | Inr t \<Rightarrow> [t])"
| "leaf_targets (Node nodes) =
     concat (map (\<lambda>name. case map_of nodes name of None \<Rightarrow> [] | Some t \<Rightarrow> leaf_targets t)
       (NodeNames nodes))"
  by pat_completeness auto
termination
  by (relation "measure size") (auto dest: size_map_of)

definition tree_contribution :: "Scanner \<Rightarrow> Tree \<Rightarrow> 'u::len uint ScanStats" where
  "tree_contribution s tree = sum_stats (map (contribution s) (leaf_targets tree))"

text \<open>
  The order on statistics: every counter, read as an unsigned number, is at most the
  counter of the other.
\<close>

definition stats_le :: "'u::len uint ScanStats \<Rightarrow> 'u uint ScanStats \<Rightarrow> bool" where
  "stats_le a b \<longleftrightarrow>
     Files a \<le> Files b \<and> Dirs a \<le> Dirs b \<and> Others a \<le> Others b \<and> Bytes a \<le> Bytes b"

text \<open>
  The size of a snapshot: the number of its entries, and the sum of the sizes its
  entries report. The statistics \<open>st\<close> have \<open>room\<close> for \<open>n\<close> more entries and \<open>b\<close> more
  bytes when no counter can wrap around; \<open>st'\<close> lies \<open>within\<close> \<open>n\<close> entries and \<open>b\<close> bytes of
  \<open>st\<close> when no counter has fallen, or risen by more than that.
\<close>

fun count_entries :: "LazyFileMetadata \<Rightarrow> nat" where
  "count_entries (LazyFileMetadata n p i m sz cs ce) = Suc (sum_list (map count_entries cs))"

fun total_size :: "LazyFileMetadata \<Rightarrow> nat" where
  "total_size (LazyFileMetadata n p i m sz cs ce) = unat sz + sum_list (map total_size cs)"

definition room :: "'u::len uint ScanStats \<Rightarrow> nat \<Rightarrow> nat \<Rightarrow> bool" where
  "room st n b \<longleftrightarrow>
     unat (Files st) + n < 2 ^ LENGTH('u) \<and> unat (Dirs st) + n < 2 ^ LENGTH('u) \<and>
     unat (Others st) + n < 2 ^ LENGTH('u) \<and> unat (Bytes st) + b < 2 ^ 64"

definition within :: "'u::len uint ScanStats \<Rightarrow> 'u uint ScanStats \<Rightarrow> nat \<Rightarrow> nat \<Rightarrow> bool" where
  "within st st' n b \<longleftrightarrow>
     unat (Files st) \<le> unat (Files st') \<and> unat (Files st') \<le> unat (Files st) + n \<and>
     unat (Dirs st) \<le> unat (Dirs st') \<and> unat (Dirs st') \<le> unat (Dirs st) + n \<and>
     unat (Others st) \<le> unat (Others st') \<and> unat (Others st') \<le> unat (Others st) + n \<and>
     unat (Bytes st) \<le> unat (Bytes st') \<and> unat (Bytes st') \<le> unat (Bytes st) + b"

text \<open>The statistics reported by a list of events never fall, starting from \<open>st\<close>.\<close>

definition rising :: "'u::len uint ScanStats \<Rightarrow> 'u uint event list \<Rightarrow> bool" where
  "rising st evs = sorted_wrt stats_le (st # result_stats evs)"

text \<open>The targets below the nodes of the given names, and the size of a tree.\<close>

definition node_targets :: "(string \<times> Tree) list \<Rightarrow> string list \<Rightarrow> LazyFileMetadata list" where
  "node_targets nodes names =
     concat (map (\<lambda>name. case map_of nodes name of None \<Rightarrow> [] | Some t \<Rightarrow> leaf_targets t) names)"

definition tree_entries :: "Tree \<Rightarrow> nat" where
  "tree_entries tree = sum_list (map count_entries (leaf_targets tree))"

definition tree_size :: "Tree \<Rightarrow> nat" where
  "tree_size tree = sum_list (map total_size (leaf_targets tree))"

text \<open>
  Two snapshots of the same file system: each entry has the same name, path, metadata
  and listing error, and the same children, whose names differ from each other, listed in
  some other order. Two logical trees for the same targets hold the same subtrees under
  the same names, in some other order of the map, with leaves that resolve to the same
  error or to two snapshots of the same file system.
\<close>

inductive same_listing :: "LazyFileMetadata \<Rightarrow> LazyFileMetadata \<Rightarrow> bool" where
  reorder: "list_all2 same_listing cs ds \<Longrightarrow> mset ds = mset cs' \<Longrightarrow> distinct (map Name cs) \<Longrightarrow>
     same_listing (LazyFileMetadata n p i m sz cs ce) (LazyFileMetadata n p i m sz cs' ce)"

inductive same_tree :: "Tree \<Rightarrow> Tree \<Rightarrow> bool" where
  leaf: "rel_sum (=) same_listing a a' \<Longrightarrow> same_tree (Leaf (LazyTarget p a)) (Leaf (LazyTarget p a'))"
| node: "list_all2 (rel_prod (=) same_tree) ns ms \<Longrightarrow> mset ms = mset ns' \<Longrightarrow>
     distinct (map fst ns) \<Longrightarrow> same_tree (Node ns) (Node ns')"

subsection \<open>Small file systems for the examples\<close>

text \<open>The examples run with the 64-bit counters of a 64-bit platform, from a fresh world.\<close>

definition world0 :: "nat option \<Rightarrow> 64 uint world" where
  "world0 c = \<lparr>cancel_after = c, polls = 0, trace = []\<rparr>"

definition regular_file :: "string \<Rightarrow> string \<Rightarrow> 64 word \<Rightarrow> LazyFileMetadata" where
  "regular_file n p sz = LazyFileMetadata n p None ModeRegular sz [] None"

definition directory :: "string \<Rightarrow> string \<Rightarrow> LazyFileMetadata list \<Rightarrow> LazyFileMetadata" where
  "directory n p cs = LazyFileMetadata n p None ModeDir 0 cs None"

text \<open>A scanner that rejects the name \<^verbatim>\<open>cache\<close>, and a home directory that has one.\<close>

definition skip_cache :: Scanner where
  "skip_cache = NewScanner\<lparr>SelectByName := (\<lambda>n. n \<noteq> ''cache'')\<rparr>"

definition cache_dir :: LazyFileMetadata where
  "cache_dir = directory ''cache'' ''/home/cache'' [regular_file ''blob'' ''/home/cache/blob'' 5]"

definition home_dir :: LazyFileMetadata where
  "home_dir = directory ''home'' ''/home'' [cache_dir, regular_file ''notes'' ''/home/notes'' 7]"

text \<open>A project directory whose listing is not in the order of the names.\<close>

definition todo_file :: LazyFileMetadata where
  "todo_file = regular_file ''todo'' ''/project/todo'' 4"

definition app_dir :: LazyFileMetadata where
  "app_dir = directory ''app'' ''/project/app''
     [regular_file ''main.go'' ''/project/app/main.go'' 9]"

definition project_dir :: LazyFileMetadata where
  "project_dir = directory ''project'' ''/project'' [todo_file, app_dir]"

text \<open>
  Builders for the examples: every target becomes a leaf below the root, under its
  path.
\<close>

definition flat_tree :: "LazyTarget list \<Rightarrow> err + Tree" where
  "flat_tree ts = Inr (Node (map (\<lambda>t. (TargetPath t, Leaf t)) ts))"

definition keep_targets :: "LazyTarget list \<Rightarrow> err + LazyTarget list" where
  "keep_targets ts = Inr ts"

text \<open>A \<^verbatim>\<open>resolveRelativeTargets\<close> that fails.\<close>

definition reject_targets :: "LazyTarget list \<Rightarrow> err + LazyTarget list" where
  "reject_targets ts = Inl ''getwd: no such file or directory''"

text \<open>A scanner whose \<^verbatim>\<open>Error\<close> policy skips every failure.\<close>

definition skip_errors :: Scanner where
  "skip_errors = NewScanner\<lparr>Error := (\<lambda>_ _. None)\<rparr>"

text \<open>A directory whose second child cannot be read.\<close>

definition locked_file :: LazyFileMetadata where
  "locked_file =
     LazyFileMetadata ''b'' ''/data/b'' (Some ''permission denied'') ModeRegular 20 [] None"

definition data_dir :: LazyFileMetadata where
  "data_dir = directory ''data'' ''/data''
     [regular_file ''a'' ''/data/a'' 10, locked_file, regular_file ''c'' ''/data/c'' 30]"

text \<open>A directory that holds a directory which cannot be listed.\<close>

definition vault_dir :: LazyFileMetadata where
  "vault_dir =
     LazyFileMetadata ''vault'' ''/srv/vault'' None ModeDir 0 [] (Some ''permission denied'')"

definition srv_dir :: LazyFileMetadata where
  "srv_dir = directory ''srv'' ''/srv''
     [regular_file ''log'' ''/srv/log'' 3, vault_dir, regular_file ''www'' ''/srv/www'' 8]"

text \<open>A world with the 32-bit counters of a 32-bit platform.\<close>

definition world32 :: "nat option \<Rightarrow> 32 uint world" where
  "world32 c = \<lparr>cancel_after = c, polls = 0, trace = []\<rparr>"

text \<open>
  Scenario D: a directory with the entries \<^verbatim>\<open>B\<close>, \<^verbatim>\<open>a\<close> and \<^verbatim>\<open>c\<close>, listed in this order and
  in another one.
\<close>

definition scenario_D :: LazyFileMetadata where
  "scenario_D = directory ''d'' ''/d''
     [regular_file ''B'' ''/d/B'' 1, regular_file ''a'' ''/d/a'' 2, regular_file ''c'' ''/d/c'' 3]"

definition scenario_D_shuffled :: LazyFileMetadata where
  "scenario_D_shuffled = directory ''d'' ''/d''
     [regular_file ''c'' ''/d/c'' 3, regular_file ''B'' ''/d/B'' 1, regular_file ''a'' ''/d/a'' 2]"

text \<open>
  Three sparse files of \<open>2^63 - 1\<close> bytes each, the largest size a signed 64-bit file
  offset can express.
\<close>

definition sparse_dir :: LazyFileMetadata where
  "sparse_dir = directory ''vm'' ''/vm''
     [regular_file ''disk0'' ''/vm/disk0'' 9223372036854775807,
      regular_file ''disk1'' ''/vm/disk1'' 9223372036854775807,
      regular_file ''disk2'' ''/vm/disk2'' 9223372036854775807]"

text \<open>Two target lists for one file system, enumerated in different orders.\<close>

definition targets_D :: "LazyTarget list" where
  "targets_D = [LazyTarget ''/d'' (Inr scenario_D),
     LazyTarget ''/z'' (Inr (regular_file ''z'' ''/z'' 1))]"

definition targets_D_again :: "LazyTarget list" where
  "targets_D_again = [LazyTarget ''/z'' (Inr (regular_file ''z'' ''/z'' 1)),
     LazyTarget ''/d'' (Inr scenario_D_shuffled)]"

section \<open>Properties\<close>

subsection \<open>The branches of \<open>scan\<close> and \<open>scanTree\<close>, one equation each\<close>

lemma ctx_Err_split: "ctx_Err w = (cancelled w, tick w)"
  by (simp add: cancelled_def tick_def)

lemma scan_cancelled: "cancelled w \<Longrightarrow> scan s w st t = (tick w, st, None)"
  by (simp add: scan.simps ctx_Err_split)

lemma scan_rejected:
  "\<not> cancelled w \<Longrightarrow> \<not> SelectByName s (Name t) \<Longrightarrow> scan s w st t = (tick w, st, None)"
  by (simp add: scan.simps ctx_Err_split)

lemma scan_init_err:
  "\<not> cancelled w \<Longrightarrow> SelectByName s (Name t) \<Longrightarrow> Init t = Some e \<Longrightarrow>
   scan s w st t = (emit (ErrorCall (Path t) e) (entered t w), st, Error s (Path t) e)"
  by (simp add: scan.simps ctx_Err_split entered_def)

lemma scan_unselected:
  "\<not> cancelled w \<Longrightarrow> SelectByName s (Name t) \<Longrightarrow> Init t = None \<Longrightarrow> \<not> Select s t \<Longrightarrow>
   scan s w st t = (entered t w, st, None)"
  by (simp add: scan.simps ctx_Err_split entered_def)

lemma scan_regular:
  "\<not> cancelled w \<Longrightarrow> SelectByName s (Name t) \<Longrightarrow> Init t = None \<Longrightarrow> Select s t \<Longrightarrow>
   Mode t = ModeRegular \<Longrightarrow>
   scan s w st t =
     (emit (ResultCall (Path t) (st\<lparr>Files := Files st + 1, Bytes := Bytes st + Size t\<rparr>))
        (entered t w),
      st\<lparr>Files := Files st + 1, Bytes := Bytes st + Size t\<rparr>, None)"
  by (simp add: scan.simps ctx_Err_split entered_def IsRegular_def Let_def)

lemma scan_other:
  "\<not> cancelled w \<Longrightarrow> SelectByName s (Name t) \<Longrightarrow> Init t = None \<Longrightarrow> Select s t \<Longrightarrow>
   Mode t = ModeOther \<Longrightarrow>
   scan s w st t =
     (emit (ResultCall (Path t) (st\<lparr>Others := Others st + 1\<rparr>)) (entered t w),
      st\<lparr>Others := Others st + 1\<rparr>, None)"
  by (simp add: scan.simps ctx_Err_split entered_def IsRegular_def IsDir_def Let_def)

lemma scan_list_err:
  "\<not> cancelled w \<Longrightarrow> SelectByName s (Name t) \<Longrightarrow> Init t = None \<Longrightarrow> Select s t \<Longrightarrow>
   Mode t = ModeDir \<Longrightarrow> ChildrenErr t = Some e \<Longrightarrow>
   scan s w st t = (emit (ErrorCall (Path t) e) (listed t w), st, Error s (Path t) e)"
  by (simp add: scan.simps ctx_Err_split entered_def listed_def IsRegular_def IsDir_def)

lemma scan_dir:
  "\<not> cancelled w \<Longrightarrow> SelectByName s (Name t) \<Longrightarrow> Init t = None \<Longrightarrow> Select s t \<Longrightarrow>
   Mode t = ModeDir \<Longrightarrow> ChildrenErr t = None \<Longrightarrow>
   scan s w st t =
     (case scan_children s (listed t w) st (sort_key Name (Children t)) of
        (w2, st2, Some e) \<Rightarrow> (w2, st2, Some e)
      | (w2, st2, None) \<Rightarrow>
          (emit (ResultCall (Path t) (st2\<lparr>Dirs := Dirs st2 + 1\<rparr>)) w2,
           st2\<lparr>Dirs := Dirs st2 + 1\<rparr>, None))"
  by (simp add: scan.simps ctx_Err_split entered_def listed_def IsRegular_def IsDir_def Let_def)

lemma scan_induct [case_names cancelled rejected init_err unselected regular other list_err dir
    nil cons]:
  assumes "\<And>s w st t. cancelled w \<Longrightarrow> P s w st t"
    and "\<And>s w st t. \<not> cancelled w \<Longrightarrow> \<not> SelectByName s (Name t) \<Longrightarrow> P s w st t"
    and "\<And>s w st t e. \<not> cancelled w \<Longrightarrow> SelectByName s (Name t) \<Longrightarrow> Init t = Some e \<Longrightarrow>
           P s w st t"
    and "\<And>s w st t. \<not> cancelled w \<Longrightarrow> SelectByName s (Name t) \<Longrightarrow> Init t = None \<Longrightarrow>
           \<not> Select s t \<Longrightarrow> P s w st t"
    and "\<And>s w st t. \<not> cancelled w \<Longrightarrow> SelectByName s (Name t) \<Longrightarrow> Init t = None \<Longrightarrow>
           Select s t \<Longrightarrow> Mode t = ModeRegular \<Longrightarrow> P s w st t"
    and "\<And>s w st t. \<not> cancelled w \<Longrightarrow> SelectByName s (Name t) \<Longrightarrow> Init t = None \<Longrightarrow>
           Select s t \<Longrightarrow> Mode t = ModeOther \<Longrightarrow> P s w st t"
    and "\<And>s w st t e. \<not> cancelled w \<Longrightarrow> SelectByName s (Name t) \<Longrightarrow> Init t = None \<Longrightarrow>
           Select s t \<Longrightarrow> Mode t = ModeDir \<Longrightarrow> ChildrenErr t = Some e \<Longrightarrow> P s w st t"
    and "\<And>s w st t. \<not> cancelled w \<Longrightarrow> SelectByName s (Name t) \<Longrightarrow> Init t = None \<Longrightarrow>
           Select s t \<Longrightarrow> Mode t = ModeDir \<Longrightarrow> ChildrenErr t = None \<Longrightarrow>
           Q s (listed t w) st (sort_key Name (Children t)) \<Longrightarrow> P s w st t"
    and "\<And>s w st. Q s w st []"
    and "\<And>s w st c cs. P s w st c \<Longrightarrow>
           (\<And>w1 st1. scan s w st c = (w1, st1, None) \<Longrightarrow> Q s w1 st1 cs) \<Longrightarrow>
           Q s w st (c # cs)"
  shows "P s w st t" and "Q s w st cs"
proof (induction s w st t and s w st cs rule: scan_scan_children.induct)
  case (1 s w stats target)
  show ?case
  proof (cases "cancelled w")
    case True
    then show ?thesis by (rule assms(1))
  next
    case live: False
    show ?thesis
    proof (cases "SelectByName s (Name target)")
      case False
      with live show ?thesis by (rule assms(2))
    next
      case sel: True
      show ?thesis
      proof (cases "Init target")
        case (Some e)
        with live sel show ?thesis by (rule assms(3))
      next
        case init: None
        show ?thesis
        proof (cases "Select s target")
          case False
          with live sel init show ?thesis by (rule assms(4))
        next
          case sel2: True
          show ?thesis
          proof (cases "Mode target")
            case ModeRegular
            with live sel init sel2 show ?thesis by (rule assms(5))
          next
            case ModeOther
            with live sel init sel2 show ?thesis by (rule assms(6))
          next
            case ModeDir
            show ?thesis
            proof (cases "ChildrenErr target")
              case (Some e)
              with live sel init sel2 ModeDir show ?thesis by (rule assms(7))
            next
              case None
              have "Q s (listed target w) stats (sort_key Name (Children target))"
                using "1.IH" [of False "tick w"] live sel init sel2 ModeDir None
                by (simp add: ctx_Err_split IsRegular_def IsDir_def listed_def entered_def)
              with live sel init sel2 ModeDir None show ?thesis by (rule assms(8))
            qed
          qed
        qed
      qed
    qed
  qed
next
  case (2 s w stats)
  show ?case by (rule assms(9))
next
  case (3 s w stats child children)
  show ?case
  proof (rule assms(10))
    show "P s w stats child" by (rule "3.IH"(1))
  next
    fix w1 st1
    assume "scan s w stats child = (w1, st1, None)"
    then show "Q s w1 st1 children"
      using "3.IH"(2) [of w1 "(st1, None)" st1 None] by simp
  qed
qed

lemma scanTree_Leaf_err:
  "Abs fm = Inl e \<Longrightarrow>
   scanTree s w st (Leaf fm) = (emit (AbsCall (TargetPath fm) (Some e)) w, ScanStats0, Some e)"
  by simp

lemma scanTree_Leaf_ok:
  "Abs fm = Inr t \<Longrightarrow>
   scanTree s w st (Leaf fm) =
     (case scan s (emit (AbsCall (TargetPath fm) None) w) st t of
        (w1, st1, Some e) \<Rightarrow> (w1, ScanStats0, Some e)
      | (w1, st1, None) \<Rightarrow> (w1, st1, None))"
  by simp

lemma scanTree_nodes_missing:
  "map_of nodes name = None \<Longrightarrow>
   scanTree_nodes s w st nodes (name # names) = scanTree_nodes s w st nodes names"
  by simp

lemma scanTree_nodes_found:
  "map_of nodes name = Some t \<Longrightarrow>
   scanTree_nodes s w st nodes (name # names) =
     (case scanTree s w st t of
        (w1, st1, Some e) \<Rightarrow> (w1, ScanStats0, Some e)
      | (w1, st1, None) \<Rightarrow>
          if cancelled w1 then (tick w1, st1, None)
          else scanTree_nodes s (tick w1) st1 nodes names)"
  by (simp add: ctx_Err_split split: prod.splits option.splits)

lemma scanTree_induct [case_names leaf_err leaf_ok node nil missing found]:
  assumes "\<And>s w st fm e. Abs fm = Inl e \<Longrightarrow> P s w st (Leaf fm)"
    and "\<And>s w st fm t. Abs fm = Inr t \<Longrightarrow> P s w st (Leaf fm)"
    and "\<And>s w st nodes. Q s w st nodes (NodeNames nodes) \<Longrightarrow> P s w st (Node nodes)"
    and "\<And>s w st nodes. Q s w st nodes []"
    and "\<And>s w st nodes name names. map_of nodes name = None \<Longrightarrow> Q s w st nodes names \<Longrightarrow>
           Q s w st nodes (name # names)"
    and "\<And>s w st nodes name names t. map_of nodes name = Some t \<Longrightarrow> P s w st t \<Longrightarrow>
           (\<And>w1 st1. scanTree s w st t = (w1, st1, None) \<Longrightarrow> \<not> cancelled w1 \<Longrightarrow>
              Q s (tick w1) st1 nodes names) \<Longrightarrow>
           Q s w st nodes (name # names)"
  shows "P s w st tr" and "Q s w st nodes names"
proof (induction s w st tr and s w st nodes names rule: scanTree_scanTree_nodes.induct)
  case (1 s w stats fm)
  show ?case
    by (cases "Abs fm") (auto intro: assms(1,2))
next
  case (2 s w stats nodes)
  then show ?case by (rule assms(3))
next
  case (3 s w stats nodes)
  show ?case by (rule assms(4))
next
  case (4 s w stats nodes name names)
  show ?case
  proof (cases "map_of nodes name")
    case None
    show ?thesis by (rule assms(5) [OF None "4.IH"(1) [OF None]])
  next
    case (Some t)
    show ?thesis
    proof (rule assms(6) [OF Some])
      show "P s w stats t" using "4.IH"(2) Some .
    next
      fix w1 st1
      assume "scanTree s w stats t = (w1, st1, None)" and "\<not> cancelled w1"
      then show "Q s (tick w1) st1 nodes names"
        using "4.IH"(3) [OF Some, of w1 "(st1, None)" st1 None False "tick w1"]
        by (simp add: ctx_Err_split)
    qed
  qed
qed

declare scanTree.simps [simp del] scanTree_nodes.simps(2) [simp del]

subsection \<open>What a call leaves unchanged\<close>

lemma tick_simps [simp]: "trace (tick w) = trace w" "cancel_after (tick w) = cancel_after w"
  "polls (tick w) = Suc (polls w)"
  by (simp_all add: tick_def ctx_Err_def)

lemma emit_simps [simp]: "trace (emit ev w) = trace w @ [ev]" "cancel_after (emit ev w) = cancel_after w"
  "polls (emit ev w) = polls w"
  by (simp_all add: emit_def)

lemma entered_simps [simp]: "trace (entered t w) = trace w @ [InitCall (Path t)]"
  "cancel_after (entered t w) = cancel_after w" "polls (entered t w) = Suc (polls w)"
  by (simp_all add: entered_def)

lemma listed_simps [simp]:
  "trace (listed t w) = trace w @ [InitCall (Path t), ChildrenCall (Path t)]"
  "cancel_after (listed t w) = cancel_after w" "polls (listed t w) = Suc (polls w)"
  by (simp_all add: listed_def)

lemma cancelled_iff: "cancelled w \<longleftrightarrow> (\<exists>k. cancel_after w = Some k \<and> k \<le> polls w)"
  by (auto simp: cancelled_def ctx_Err_def split: option.splits)

lemma frame_refl [simp]: "frame w w"
  by (simp add: frame_def new_events_def)

lemma frame_trans: "frame w w1 \<Longrightarrow> frame w1 w2 \<Longrightarrow> frame w w2"
  unfolding frame_def new_events_def
  by (metis append_eq_conv_conj le_trans append.assoc)

lemma frame_steps [simp]: "frame w (tick w)" "frame w (emit ev w)" "frame w (entered t w)"
  "frame w (listed t w)"
  by (simp_all add: frame_def new_events_def)

lemma new_events_trans:
  "frame w w1 \<Longrightarrow> frame w1 w2 \<Longrightarrow> new_events w w2 = new_events w w1 @ new_events w1 w2"
  unfolding frame_def new_events_def
  by (metis append_eq_conv_conj append.assoc)

lemma scan_frame:
  "scan s w st t = (w', st', r) \<Longrightarrow> frame w w'"
  "scan_children s w st cs = (w', st', r) \<Longrightarrow> frame w w'"
proof (induction s w st t and s w st cs arbitrary: w' st' r and w' st' r rule: scan_induct)
  case (dir s w st t)
  obtain w2 st2 r2 where c: "scan_children s (listed t w) st (sort_key Name (Children t)) = (w2, st2, r2)"
    by (metis prod_cases3)
  have "frame (listed t w) w2" using dir.IH c by blast
  then have "frame w w2" using frame_trans frame_steps(4) by blast
  moreover have "w' = w2 \<or> w' = emit (ResultCall (Path t) st') w2"
    using dir.prems dir.hyps c by (cases r2) (auto simp: scan_dir)
  ultimately show ?case using frame_trans frame_steps(2) by blast
next
  case (cons s w st c cs)
  obtain w1 st1 r1 where c: "scan s w st c = (w1, st1, r1)"
    by (metis prod_cases3)
  show ?case
  proof (cases r1)
    case None
    with cons c show ?thesis by (auto intro: frame_trans)
  next
    case (Some e)
    with cons c show ?thesis by auto
  qed
qed (auto simp: scan_cancelled scan_rejected scan_init_err scan_unselected scan_regular scan_other scan_list_err intro: frame_trans [OF frame_steps(3) frame_steps(2)] frame_trans [OF frame_steps(4) frame_steps(2)])

lemma scanTree_frame:
  "scanTree s w st tr = (w', st', r) \<Longrightarrow> frame w w'"
  "scanTree_nodes s w st nodes names = (w', st', r) \<Longrightarrow> frame w w'"
proof (induction s w st tr and s w st nodes names arbitrary: w' st' r and w' st' r
    rule: scanTree_induct)
  case (leaf_err s w st fm e)
  then show ?case by (auto simp: scanTree_Leaf_err)
next
  case (leaf_ok s w st fm t)
  obtain w1 st1 r1 where c: "scan s (emit (AbsCall (TargetPath fm) None) w) st t = (w1, st1, r1)"
    by (metis prod_cases3)
  then have "frame w w1"
    using scan_frame(1) frame_trans frame_steps(2) by blast
  moreover have "w' = w1"
    using leaf_ok c by (cases r1) (auto simp: scanTree_Leaf_ok)
  ultimately show ?case by simp
next
  case (node s w st nodes)
  then show ?case by (simp add: scanTree.simps)
next
  case (nil s w st nodes)
  then show ?case by simp
next
  case (missing s w st nodes name names)
  then show ?case by (simp add: scanTree_nodes_missing)
next
  case (found s w st nodes name names t)
  obtain w1 st1 r1 where c: "scanTree s w st t = (w1, st1, r1)"
    by (metis prod_cases3)
  have f1: "frame w w1" using found.IH(1) c by blast
  show ?case
  proof (cases r1)
    case (Some e)
    with found.prems found.hyps c f1 show ?thesis by (simp add: scanTree_nodes_found)
  next
    case None
    show ?thesis
    proof (cases "cancelled w1")
      case True
      with None found.prems found.hyps c have "w' = tick w1"
        by (simp add: scanTree_nodes_found)
      with f1 show ?thesis using frame_trans frame_steps(1) by blast
    next
      case False
      with None found.prems found.hyps c
      have "scanTree_nodes s (tick w1) st1 nodes names = (w', st', r)"
        by (simp add: scanTree_nodes_found)
      then have "frame (tick w1) w'" using found.IH(2) c None False by blast
      with f1 show ?thesis using frame_trans frame_steps(1) by blast
    qed
  qed
qed

subsection \<open>The events of a call\<close>

lemma new_events_steps [simp]:
  "new_events w w = []"
  "new_events w (tick w) = []"
  "new_events w (entered t w) = [InitCall (Path t)]"
  "new_events w (listed t w) = [InitCall (Path t), ChildrenCall (Path t)]"
  by (simp_all add: new_events_def)

lemma frame_length: "frame w w1 \<Longrightarrow> length (trace w) \<le> length (trace w1)"
  unfolding frame_def by (metis le_add1 length_append)

lemma new_events_emit: "frame w w1 \<Longrightarrow> new_events w (emit ev w1) = new_events w w1 @ [ev]"
  by (simp add: new_events_def frame_length)

lemma new_events_emit_steps [simp]:
  "new_events w (emit ev (entered t w)) = [InitCall (Path t), ev]"
  "new_events w (emit ev (listed t w)) = [InitCall (Path t), ChildrenCall (Path t), ev]"
  by (simp_all add: new_events_emit)

lemma new_events_listed:
  "frame (listed t w) w1 \<Longrightarrow>
   new_events w w1 = InitCall (Path t) # ChildrenCall (Path t) # new_events (listed t w) w1"
  using new_events_trans [of w "listed t w" w1] by simp

lemma scan_dir_cases:
  assumes "\<not> cancelled w" "SelectByName s (Name t)" "Init t = None" "Select s t"
    "Mode t = ModeDir" "ChildrenErr t = None" "scan s w st t = (w', st', r)"
  obtains (abort) e where
      "scan_children s (listed t w) st (sort_key Name (Children t)) = (w', st', Some e)"
      "r = Some e"
      "new_events w w' = InitCall (Path t) # ChildrenCall (Path t) # new_events (listed t w) w'"
  | (finished) w2 st2 where
      "scan_children s (listed t w) st (sort_key Name (Children t)) = (w2, st2, None)"
      "r = None" "st' = st2\<lparr>Dirs := Dirs st2 + 1\<rparr>" "w' = emit (ResultCall (Path t) st') w2"
      "new_events w w' = InitCall (Path t) # ChildrenCall (Path t) #
         new_events (listed t w) w2 @ [ResultCall (Path t) st']"
      "frame (listed t w) w2"
proof -
  obtain w2 st2 r2 where c: "scan_children s (listed t w) st (sort_key Name (Children t)) = (w2, st2, r2)"
    by (metis prod_cases3)
  have f: "frame (listed t w) w2" using c by (rule scan_frame(2))
  show thesis
  proof (cases r2)
    case None
    with c assms have *: "r = None" "st' = st2\<lparr>Dirs := Dirs st2 + 1\<rparr>"
      "w' = emit (ResultCall (Path t) st') w2"
      by (auto simp: scan_dir)
    have "frame w w2" using f frame_trans frame_steps(4) by blast
    then have "new_events w w' = new_events w w2 @ [ResultCall (Path t) st']"
      using * by (simp add: new_events_emit)
    then show ?thesis using finished c None * f by (simp add: new_events_listed)
  next
    case (Some e)
    with c assms have "r = Some e" "st' = st2" "w' = w2"
      by (auto simp: scan_dir)
    then show ?thesis using abort c Some f by (simp add: new_events_listed)
  qed
qed

lemma scan_children_cases:
  assumes "scan_children s w st (c # cs) = (w', st', r)"
  obtains (abort) e where "scan s w st c = (w', st', Some e)" "r = Some e"
  | (continue) w1 st1 where "scan s w st c = (w1, st1, None)"
      "scan_children s w1 st1 cs = (w', st', r)"
      "new_events w w' = new_events w w1 @ new_events w1 w'"
proof -
  obtain w1 st1 r1 where c: "scan s w st c = (w1, st1, r1)"
    by (metis prod_cases3)
  show thesis
  proof (cases r1)
    case None
    with c assms have n: "scan_children s w1 st1 cs = (w', st', r)" by simp
    have "frame w w1" "frame w1 w'" using c n scan_frame by blast+
    then show ?thesis using continue c None n new_events_trans by blast
  next
    case (Some e)
    with c assms have "w' = w1" "st' = st1" "r = Some e" by simp_all
    with c Some show ?thesis using abort by blast
  qed
qed

lemma new_events_tick [simp]: "new_events (tick w) w' = new_events w w'"
  by (simp add: new_events_def)

lemma frame_tick: "frame (tick w) w' \<Longrightarrow> frame w w'"
  using frame_trans frame_steps(1) by blast

lemma scanTree_Leaf_ok_cases:
  assumes "Abs fm = Inr t" and "scanTree s w st (Leaf fm) = (w', st', r)"
  obtains st1 where "scan s (emit (AbsCall (TargetPath fm) None) w) st t = (w', st1, r)"
    and "st' = (if r = None then st1 else ScanStats0)"
    and "new_events w w' =
      AbsCall (TargetPath fm) None # new_events (emit (AbsCall (TargetPath fm) None) w) w'"
proof -
  obtain w1 st1 r1 where c: "scan s (emit (AbsCall (TargetPath fm) None) w) st t = (w1, st1, r1)"
    by (metis prod_cases3)
  have "w' = w1" "r = r1" "st' = (if r = None then st1 else ScanStats0)"
    using assms c by (cases r1; auto simp: scanTree_Leaf_ok)+
  moreover have "new_events w w1 =
      AbsCall (TargetPath fm) None # new_events (emit (AbsCall (TargetPath fm) None) w) w1"
    using new_events_trans [OF frame_steps(2) scan_frame(1) [OF c]] by (simp add: new_events_emit)
  ultimately show thesis using that c by simp
qed

lemma scanTree_nodes_cases:
  assumes "map_of nodes name = Some t"
    and "scanTree_nodes s w st nodes (name # names) = (w', st', r)"
  obtains (abort) st1 e where "scanTree s w st t = (w', st1, Some e)" "r = Some e"
      "st' = ScanStats0"
  | (stop) w1 where "scanTree s w st t = (w1, st', None)" "cancelled w1" "w' = tick w1"
      "r = None" "new_events w w' = new_events w w1"
  | (continue) w1 st1 where "scanTree s w st t = (w1, st1, None)" "\<not> cancelled w1"
      "scanTree_nodes s (tick w1) st1 nodes names = (w', st', r)"
      "new_events w w' = new_events w w1 @ new_events (tick w1) w'"
proof -
  obtain w1 st1 r1 where c: "scanTree s w st t = (w1, st1, r1)"
    by (metis prod_cases3)
  have f1: "frame w w1" using c by (rule scanTree_frame(1))
  show thesis
  proof (cases r1)
    case (Some e)
    with assms c have "w' = w1" "r = Some e" "st' = ScanStats0"
      by (auto simp: scanTree_nodes_found)
    with c Some show ?thesis using abort by blast
  next
    case None
    show ?thesis
    proof (cases "cancelled w1")
      case True
      with None assms c have "w' = tick w1" "r = None" "st' = st1"
        by (auto simp: scanTree_nodes_found)
      moreover have "new_events w (tick w1) = new_events w w1"
        using new_events_trans [OF f1 frame_steps(1)] by simp
      ultimately show ?thesis using stop c None True by blast
    next
      case False
      with None assms c
      have n: "scanTree_nodes s (tick w1) st1 nodes names = (w', st', r)"
        by (simp add: scanTree_nodes_found)
      have "new_events w w' = new_events w w1 @ new_events (tick w1) w'"
        using new_events_trans [OF f1 frame_tick [OF scanTree_frame(2) [OF n]]] by simp
      with c None False n show ?thesis using continue by blast
    qed
  qed
qed

lemma Scan_cases:
  assumes "Scan resolveRelativeTargets newTree s w targets = (w', r)"
  obtains (unbuilt) e where "build_tree resolveRelativeTargets newTree targets = Inl e"
      "w' = w" "r = Some e"
  | (abort) tree st1 e where "build_tree resolveRelativeTargets newTree targets = Inr tree"
      "scanTree s w ScanStats0 tree = (w', st1, Some e)" "r = Some e"
  | (finished) tree w1 stats where "build_tree resolveRelativeTargets newTree targets = Inr tree"
      "scanTree s w ScanStats0 tree = (w1, stats, None)" "w' = emit (ResultCall [] stats) w1"
      "r = None" "new_events w w' = new_events w w1 @ [ResultCall [] stats]"
proof (cases "build_tree resolveRelativeTargets newTree targets")
  case (Inl e)
  with assms have "w' = w" "r = Some e"
    by (auto simp: Scan_def build_tree_def split: sum.splits)
  with Inl show ?thesis using unbuilt by blast
next
  case (Inr tree)
  obtain w1 st1 r1 where c: "scanTree s w ScanStats0 tree = (w1, st1, r1)"
    by (metis prod_cases3)
  show ?thesis
  proof (cases r1)
    case None
    with Inr c assms have "w' = emit (ResultCall [] st1) w1" "r = None"
      by (auto simp: Scan_def build_tree_def split: sum.splits)
    moreover have "new_events w (emit (ResultCall [] st1) w1) = new_events w w1 @ [ResultCall [] st1]"
      using scanTree_frame(1) [OF c] by (simp add: new_events_emit)
    ultimately show ?thesis using finished Inr c None by blast
  next
    case (Some e)
    with Inr c assms have "w' = w1" "r = Some e"
      by (auto simp: Scan_def build_tree_def split: sum.splits)
    with Inr c Some show ?thesis using abort by blast
  qed
qed

subsection \<open>Entries rejected by name\<close>

lemma reach_self: "SelectByName s (Name t) \<Longrightarrow> Path t \<in> reach s t"
  by (cases t) simp

lemma reach_child:
  "SelectByName s (Name t) \<Longrightarrow> c \<in> set (Children t) \<Longrightarrow> p \<in> reach s c \<Longrightarrow> p \<in> reach s t"
  by (cases t) auto

lemma scan_paths:
  "scan s w st t = (w', st', r) \<Longrightarrow> \<forall>ev \<in> set (new_events w w'). event_path ev \<in> reach s t"
  "scan_children s w st cs = (w', st', r) \<Longrightarrow>
     \<forall>ev \<in> set (new_events w w'). event_path ev \<in> (\<Union>c \<in> set cs. reach s c)"
proof (induction s w st t and s w st cs arbitrary: w' st' r and w' st' r rule: scan_induct)
  case (dir s w st t)
  from dir.hyps dir.prems show ?case
  proof (cases rule: scan_dir_cases)
    case (abort e)
    then show ?thesis using dir.IH [OF abort(1)] dir.hyps(2)
      by (auto intro: reach_self reach_child)
  next
    case (finished w2 st2)
    then show ?thesis using dir.IH [OF finished(1)] dir.hyps(2)
      by (auto intro: reach_self reach_child)
  qed
next
  case (cons s w st c cs)
  from cons.prems show ?case
  proof (cases rule: scan_children_cases)
    case (abort e)
    then show ?thesis using cons.IH(1) by auto
  next
    case (continue w1 st1)
    then show ?thesis using cons.IH(1) [OF continue(1)] cons.IH(2) [OF continue(1,2)] by auto
  qed
qed (auto simp: scan_cancelled scan_rejected scan_init_err scan_unselected scan_regular
    scan_other scan_list_err reach_self)

text \<open>
  C5. An entry that \<^verbatim>\<open>SelectByName\<close> rejects is left at once: the call adds no event to
  the trace (no \<^verbatim>\<open>Init\<close>, no listing, no \<^verbatim>\<open>Result\<close>, for the entry or anything below it),
  the statistics come back unchanged and the error is \<^verbatim>\<open>nil\<close>. For the scan of any
  subtree, every event is about an entry that was reached through accepted names only.
\<close>

theorem rejected_name_excludes_subtree:
  assumes "scan s w st t = (w', st', r)"
  shows "(\<not> SelectByName s (Name t) \<longrightarrow> new_events w w' = [] \<and> st' = st \<and> r = None) \<and>
         (\<forall>ev \<in> set (new_events w w'). event_path ev \<in> reach s t)"
proof
  show "\<not> SelectByName s (Name t) \<longrightarrow> new_events w w' = [] \<and> st' = st \<and> r = None"
    using assms by (cases "cancelled w") (auto simp: scan_cancelled scan_rejected)
  show "\<forall>ev \<in> set (new_events w w'). event_path ev \<in> reach s t"
    using assms by (rule scan_paths(1))
qed

theorem rejected_name_excludes_subtree_witness:
  "\<not> SelectByName skip_cache (Name cache_dir) \<and>
   snd (scan skip_cache (world0 None) ScanStats0 cache_dir) = (ScanStats0, None) \<and>
   new_events (world0 None) (fst (scan skip_cache (world0 None) ScanStats0 cache_dir)) = [] \<and>
   map event_path (new_events (world0 None) (fst (scan skip_cache (world0 None) ScanStats0 home_dir))) =
     [''/home'', ''/home'', ''/home/notes'', ''/home/notes'', ''/home''] \<and>
   event_path ` set (new_events (world0 None) (fst (scan skip_cache (world0 None) ScanStats0 home_dir)))
     \<subseteq> reach skip_cache home_dir \<and>
   ''/home/cache'' \<notin> reach skip_cache home_dir \<and> ''/home/cache/blob'' \<notin> reach skip_cache home_dir"
proof -
  have rej: "\<not> SelectByName skip_cache (Name cache_dir)"
    by code_simp
  have paths: "map event_path (new_events (world0 None) (fst (scan skip_cache (world0 None) ScanStats0 home_dir))) =
     [''/home'', ''/home'', ''/home/notes'', ''/home/notes'', ''/home'']"
    by code_simp
  have out: "''/home/cache'' \<notin> reach skip_cache home_dir" "''/home/cache/blob'' \<notin> reach skip_cache home_dir"
    by code_simp+
  have c: "scan skip_cache (world0 None) ScanStats0 cache_dir =
      (fst (scan skip_cache (world0 None) ScanStats0 cache_dir),
       fst (snd (scan skip_cache (world0 None) ScanStats0 cache_dir)),
       snd (snd (scan skip_cache (world0 None) ScanStats0 cache_dir)))"
    by simp
  have h: "scan skip_cache (world0 None) ScanStats0 home_dir =
      (fst (scan skip_cache (world0 None) ScanStats0 home_dir),
       fst (snd (scan skip_cache (world0 None) ScanStats0 home_dir)),
       snd (snd (scan skip_cache (world0 None) ScanStats0 home_dir)))"
    by simp
  from rejected_name_excludes_subtree [OF c] rejected_name_excludes_subtree [OF h] rej paths out
  show ?thesis by (auto simp: prod_eq_iff)
qed

subsection \<open>How a scan ends\<close>

lemma harmless_simps [simp]:
  "harmless s []"
  "harmless s (ev # evs) \<longleftrightarrow> fatal_err s ev = None \<and> harmless s evs"
  "harmless s (evs @ evs') \<longleftrightarrow> harmless s evs \<and> harmless s evs'"
  by (simp_all add: harmless_def)

lemma ends_with_None [simp]: "ends_with s evs None \<longleftrightarrow> harmless s evs"
  by (simp add: ends_with_def)

lemma ends_with_single: "ends_with s [ev] (fatal_err s ev)"
  by (simp add: ends_with_def)

lemma ends_with_append: "harmless s evs \<Longrightarrow> ends_with s evs' r \<Longrightarrow> ends_with s (evs @ evs') r"
  by (auto simp: ends_with_def butlast_append)

lemma ends_with_Cons: "fatal_err s ev = None \<Longrightarrow> ends_with s evs r \<Longrightarrow> ends_with s (ev # evs) r"
  using ends_with_append [of s "[ev]" evs r] by simp

lemma ends_with_error:
  "ends_with s [InitCall p, ErrorCall p e] (Error s p e)"
  "ends_with s [InitCall p, ChildrenCall p, ErrorCall p e] (Error s p e)"
  by (simp_all add: ends_with_def)

lemma ends_with_fatal:
  assumes "ends_with s evs r" and "evs = pre @ ev # post" and "fatal_err s ev = Some e"
  shows "r = Some e \<and> post = []"
proof (cases r)
  case None
  with assms show ?thesis by simp
next
  case (Some e')
  with assms(1) have ne: "evs \<noteq> []" and h: "harmless s (butlast evs)"
    and l: "fatal_err s (last evs) = r"
    by (simp_all add: ends_with_def)
  have "post = []"
  proof (rule ccontr)
    assume "post \<noteq> []"
    then have "butlast evs = pre @ ev # butlast post"
      using assms(2) by (simp add: butlast_append)
    with h assms(3) show False by simp
  qed
  with assms(2,3) l show ?thesis by simp
qed

lemma scan_ends_with:
  "scan s w st t = (w', st', r) \<Longrightarrow> ends_with s (new_events w w') r"
  "scan_children s w st cs = (w', st', r) \<Longrightarrow> ends_with s (new_events w w') r"
proof (induction s w st t and s w st cs arbitrary: w' st' r and w' st' r rule: scan_induct)
  case (init_err s w st t e)
  then have "new_events w w' = [InitCall (Path t), ErrorCall (Path t) e]"
    and "r = Error s (Path t) e"
    by (auto simp: scan_init_err)
  then show ?case by (simp add: ends_with_error)
next
  case (list_err s w st t e)
  then have "new_events w w' = [InitCall (Path t), ChildrenCall (Path t), ErrorCall (Path t) e]"
    and "r = Error s (Path t) e"
    by (auto simp: scan_list_err)
  then show ?case by (simp add: ends_with_error)
next
  case (dir s w st t)
  from dir.hyps dir.prems show ?case
  proof (cases rule: scan_dir_cases)
    case (abort e)
    then show ?thesis using dir.IH [OF abort(1)] by (simp add: ends_with_Cons)
  next
    case (finished w2 st2)
    then show ?thesis using dir.IH [OF finished(1)] by simp
  qed
next
  case (cons s w st c cs)
  from cons.prems show ?case
  proof (cases rule: scan_children_cases)
    case (abort e)
    then show ?thesis using cons.IH(1) by simp
  next
    case (continue w1 st1)
    then show ?thesis
      using cons.IH(1) [OF continue(1)] cons.IH(2) [OF continue(1,2)] ends_with_append by simp
  qed
qed (auto simp: scan_cancelled scan_rejected scan_unselected scan_regular scan_other)

lemma scanTree_ends_with:
  "scanTree s w st tr = (w', st', r) \<Longrightarrow> ends_with s (new_events w w') r"
  "scanTree_nodes s w st nodes names = (w', st', r) \<Longrightarrow> ends_with s (new_events w w') r"
proof (induction s w st tr and s w st nodes names arbitrary: w' st' r and w' st' r
    rule: scanTree_induct)
  case (leaf_err s w st fm e)
  then have "new_events w w' = [AbsCall (TargetPath fm) (Some e)]" and "r = Some e"
    by (auto simp: scanTree_Leaf_err new_events_emit)
  then show ?case by (simp add: ends_with_def)
next
  case (leaf_ok s w st fm t)
  from leaf_ok.hyps leaf_ok.prems show ?case
  proof (cases rule: scanTree_Leaf_ok_cases)
    case (1 st1)
    then show ?thesis using scan_ends_with(1) [OF 1(1)] by (simp add: ends_with_Cons)
  qed
next
  case (node s w st nodes)
  then show ?case by (simp add: scanTree.simps)
next
  case (nil s w st nodes)
  then show ?case by auto
next
  case (missing s w st nodes name names)
  then show ?case by (simp add: scanTree_nodes_missing)
next
  case (found s w st nodes name names t)
  from found.hyps found.prems show ?case
  proof (cases rule: scanTree_nodes_cases)
    case (abort st1 e)
    then show ?thesis using found.IH(1) by simp
  next
    case (stop w1)
    then show ?thesis using found.IH(1) [OF stop(1)] by simp
  next
    case (continue w1 st1)
    then show ?thesis
      using found.IH(1) [OF continue(1)] found.IH(2) [OF continue(1,2,3)]
      by (simp add: ends_with_append)
  qed
qed

lemma Scan_fatal_event:
  assumes "Scan resolveRelativeTargets newTree s w targets = (w', r)"
    and "new_events w w' = pre @ ev # post" and "fatal_err s ev = Some e"
  shows "r = Some e \<and> post = []"
  using assms(1)
proof (cases rule: Scan_cases)
  case (unbuilt e')
  with assms(2) show ?thesis by simp
next
  case (abort tree st1 e')
  from scanTree_ends_with(1) [OF abort(2)] assms(2,3) have "Some e' = Some e \<and> post = []"
    by (rule ends_with_fatal)
  with abort(3) show ?thesis by simp
next
  case (finished tree w1 stats)
  have "harmless s (new_events w w1)"
    using scanTree_ends_with(1) [OF finished(2)] by simp
  then have "ends_with s (new_events w w') None"
    using finished(5) by simp
  from this assms(2,3) have "None = Some e \<and> post = []"
    by (rule ends_with_fatal)
  then show ?thesis by simp
qed

lemma failed_entry_aborts:
  assumes "\<not> cancelled w" and "SelectByName s (Name c)"
    and "Init c = Some e0 \<or>
      (Init c = None \<and> Select s c \<and> Mode c = ModeDir \<and> ChildrenErr c = Some e0)"
    and "Error s (Path c) e0 = Some e"
  shows "\<exists>w1. scan s w st c = (w1, st, Some e) \<and>
    new_events w w1 =
      (if Init c = None then [InitCall (Path c), ChildrenCall (Path c), ErrorCall (Path c) e0]
       else [InitCall (Path c), ErrorCall (Path c) e0]) \<and>
    scan_children s w st (c # cs) = (w1, st, Some e)"
  using assms by (auto simp: scan_init_err scan_list_err)

text \<open>
  C2. Whenever \<^verbatim>\<open>scan\<close> is called on an entry \<open>c\<close>, with the context not cancelled and the
  name of \<open>c\<close> accepted, and \<^verbatim>\<open>Init()\<close> of \<open>c\<close> fails, or \<open>c\<close> is a selected directory and
  \<^verbatim>\<open>Children()\<close> of \<open>c\<close> fails, with the error \<open>e0\<close>, then the \<^verbatim>\<open>Error\<close> policy is asked about
  the path of \<open>c\<close> and \<open>e0\<close>; if it answers with an error \<open>e\<close>, the call returns \<open>e\<close> with the
  statistics it was given, its only events are the failed calls and the call of the
  policy, and the loop over \<open>c\<close> and its siblings returns the same, without a call for
  any sibling. And in every run of \<^verbatim>\<open>Scan\<close> in which the policy is asked, about any path
  \<open>p\<close> and error \<open>e0\<close>, and answers with an error \<open>e\<close>, \<^verbatim>\<open>Scan\<close> returns exactly \<open>e\<close>, at
  whatever depth the entry lies, and that call of the policy is the last event of the
  scan: no \<^verbatim>\<open>Result\<close> callback, and nothing else, follows it.
\<close>

theorem on_error_abort_is_final:
  fixes w w0 :: "'u::len uint world"
  shows "(\<not> cancelled w0 \<and> SelectByName s (Name c) \<and>
       (Init c = Some e0 \<or>
        (Init c = None \<and> Select s c \<and> Mode c = ModeDir \<and> ChildrenErr c = Some e0)) \<and>
       Error s (Path c) e0 = Some e \<longrightarrow>
       (\<exists>w1. scan s w0 st0 c = (w1, st0, Some e) \<and>
          new_events w0 w1 =
            (if Init c = None
             then [InitCall (Path c), ChildrenCall (Path c), ErrorCall (Path c) e0]
             else [InitCall (Path c), ErrorCall (Path c) e0]) \<and>
          scan_children s w0 st0 (c # cs) = (w1, st0, Some e))) \<and>
    (Scan resolveRelativeTargets newTree s w targets = (w', r) \<and>
       new_events w w' = pre @ ErrorCall p e0 # post \<and> Error s p e0 = Some e \<longrightarrow>
       r = Some e \<and> post = [])"
proof (intro conjI impI)
  assume "\<not> cancelled w0 \<and> SelectByName s (Name c) \<and>
       (Init c = Some e0 \<or>
        (Init c = None \<and> Select s c \<and> Mode c = ModeDir \<and> ChildrenErr c = Some e0)) \<and>
       Error s (Path c) e0 = Some e"
  then show "\<exists>w1. scan s w0 st0 c = (w1, st0, Some e) \<and>
          new_events w0 w1 =
            (if Init c = None
             then [InitCall (Path c), ChildrenCall (Path c), ErrorCall (Path c) e0]
             else [InitCall (Path c), ErrorCall (Path c) e0]) \<and>
          scan_children s w0 st0 (c # cs) = (w1, st0, Some e)"
    by (intro failed_entry_aborts) simp_all
next
  assume a: "Scan resolveRelativeTargets newTree s w targets = (w', r) \<and>
       new_events w w' = pre @ ErrorCall p e0 # post \<and> Error s p e0 = Some e"
  then have "fatal_err s (ErrorCall p e0) = Some e" by simp
  with a have "r = Some e \<and> post = []"
    by (intro Scan_fatal_event [of resolveRelativeTargets newTree s w targets w' r pre
          "ErrorCall p e0" post e]) simp_all
  then show "r = Some e" and "post = []" by simp_all
qed

theorem on_error_abort_is_final_witness:
  "\<not> cancelled (world0 None) \<and> SelectByName NewScanner (Name vault_dir) \<and>
   Init vault_dir = None \<and> Select NewScanner vault_dir \<and> Mode vault_dir = ModeDir \<and>
   ChildrenErr vault_dir = Some ''permission denied'' \<and>
   Error NewScanner (Path vault_dir) ''permission denied'' = Some ''permission denied'' \<and>
   scan NewScanner (world0 None) ScanStats0 vault_dir =
     (\<lparr>cancel_after = None, polls = 1,
        trace = [InitCall ''/srv/vault'', ChildrenCall ''/srv/vault'',
          ErrorCall ''/srv/vault'' ''permission denied'']\<rparr>,
      ScanStats0, Some ''permission denied'') \<and>
   scan_children NewScanner (world0 None) ScanStats0
       [vault_dir, regular_file ''www'' ''/srv/www'' 8] =
     scan NewScanner (world0 None) ScanStats0 vault_dir \<and>
   SelectByName NewScanner (Name locked_file) \<and> Init locked_file = Some ''permission denied'' \<and>
   Error NewScanner (Path locked_file) ''permission denied'' = Some ''permission denied'' \<and>
   scan NewScanner (world0 None) ScanStats0 locked_file =
     (\<lparr>cancel_after = None, polls = 1,
        trace = [InitCall ''/data/b'', ErrorCall ''/data/b'' ''permission denied'']\<rparr>,
      ScanStats0, Some ''permission denied'') \<and>
   scan_children NewScanner (world0 None) ScanStats0
       [locked_file, regular_file ''c'' ''/data/c'' 30] =
     scan NewScanner (world0 None) ScanStats0 locked_file \<and>
   new_events (world0 None)
      (fst (Scan keep_targets flat_tree NewScanner (world0 None) [LazyTarget ''/srv'' (Inr srv_dir)])) =
     [AbsCall ''/srv'' None, InitCall ''/srv'', ChildrenCall ''/srv'', InitCall ''/srv/log'',
      ResultCall ''/srv/log'' \<lparr>Files = 1, Dirs = 0, Others = 0, Bytes = 3\<rparr>,
      InitCall ''/srv/vault'', ChildrenCall ''/srv/vault''] @
     ErrorCall ''/srv/vault'' ''permission denied'' # [] \<and>
   snd (Scan keep_targets flat_tree NewScanner (world0 None) [LazyTarget ''/srv'' (Inr srv_dir)]) =
     Some ''permission denied'' \<and>
   new_events (world0 None)
      (fst (Scan keep_targets flat_tree NewScanner (world0 None) [LazyTarget ''/data'' (Inr data_dir)])) =
     [AbsCall ''/data'' None, InitCall ''/data'', ChildrenCall ''/data'', InitCall ''/data/a'',
      ResultCall ''/data/a'' \<lparr>Files = 1, Dirs = 0, Others = 0, Bytes = 10\<rparr>,
      InitCall ''/data/b''] @ ErrorCall ''/data/b'' ''permission denied'' # [] \<and>
   snd (Scan keep_targets flat_tree NewScanner (world0 None) [LazyTarget ''/data'' (Inr data_dir)]) =
     Some ''permission denied''"
proof -
  let ?srv = "Scan keep_targets flat_tree NewScanner (world0 None) [LazyTarget ''/srv'' (Inr srv_dir)]"
  let ?data = "Scan keep_targets flat_tree NewScanner (world0 None) [LazyTarget ''/data'' (Inr data_dir)]"
  let ?www = "regular_file ''www'' ''/srv/www'' 8"
  let ?c = "regular_file ''c'' ''/data/c'' 30"
  have live: "\<not> cancelled (world0 None)"
    by (simp add: cancelled_iff world0_def)
  have vault: "SelectByName NewScanner (Name vault_dir)" "Init vault_dir = None"
    "Select NewScanner vault_dir" "Mode vault_dir = ModeDir"
    "ChildrenErr vault_dir = Some ''permission denied''"
    "Error NewScanner (Path vault_dir) ''permission denied'' = Some ''permission denied''"
    by (simp_all add: vault_dir_def NewScanner_def)
  have locked: "SelectByName NewScanner (Name locked_file)"
    "Init locked_file = Some ''permission denied''"
    "Error NewScanner (Path locked_file) ''permission denied'' = Some ''permission denied''"
    by (simp_all add: locked_file_def NewScanner_def)
  have vault_run: "scan NewScanner (world0 None) ScanStats0 vault_dir =
     (\<lparr>cancel_after = None, polls = 1,
        trace = [InitCall ''/srv/vault'', ChildrenCall ''/srv/vault'',
          ErrorCall ''/srv/vault'' ''permission denied'']\<rparr>,
      ScanStats0, Some ''permission denied'')"
    by code_simp
  have locked_run: "scan NewScanner (world0 None) ScanStats0 locked_file =
     (\<lparr>cancel_after = None, polls = 1,
        trace = [InitCall ''/data/b'', ErrorCall ''/data/b'' ''permission denied'']\<rparr>,
      ScanStats0, Some ''permission denied'')"
    by code_simp
  have srv_evs: "new_events (world0 None) (fst ?srv) =
     [AbsCall ''/srv'' None, InitCall ''/srv'', ChildrenCall ''/srv'', InitCall ''/srv/log'',
      ResultCall ''/srv/log'' \<lparr>Files = 1, Dirs = 0, Others = 0, Bytes = 3\<rparr>,
      InitCall ''/srv/vault'', ChildrenCall ''/srv/vault''] @
     ErrorCall ''/srv/vault'' ''permission denied'' # []"
    by code_simp
  have data_evs: "new_events (world0 None) (fst ?data) =
     [AbsCall ''/data'' None, InitCall ''/data'', ChildrenCall ''/data'', InitCall ''/data/a'',
      ResultCall ''/data/a'' \<lparr>Files = 1, Dirs = 0, Others = 0, Bytes = 10\<rparr>,
      InitCall ''/data/b''] @ ErrorCall ''/data/b'' ''permission denied'' # []"
    by code_simp
  have pol: "Error NewScanner ''/srv/vault'' ''permission denied'' = Some ''permission denied''"
    "Error NewScanner ''/data/b'' ''permission denied'' = Some ''permission denied''"
    by (simp_all add: NewScanner_def)
  have srv_run: "?srv = (fst ?srv, snd ?srv)" and data_run: "?data = (fst ?data, snd ?data)"
    by simp_all
  have "\<exists>w1. scan NewScanner (world0 None) ScanStats0 vault_dir =
        (w1, ScanStats0, Some ''permission denied'') \<and>
      scan_children NewScanner (world0 None) ScanStats0 [vault_dir, ?www] =
        (w1, ScanStats0, Some ''permission denied'')"
    using on_error_abort_is_final [where ?w0.0 = "world0 None" and s = NewScanner
        and c = vault_dir and ?e0.0 = "''permission denied''" and e = "''permission denied''"
        and ?st0.0 = ScanStats0 and cs = "[?www]"] live vault
    by blast
  then have vault_loop: "scan_children NewScanner (world0 None) ScanStats0 [vault_dir, ?www] =
      scan NewScanner (world0 None) ScanStats0 vault_dir"
    by (elim exE conjE) (simp only:)
  have "\<exists>w1. scan NewScanner (world0 None) ScanStats0 locked_file =
        (w1, ScanStats0, Some ''permission denied'') \<and>
      scan_children NewScanner (world0 None) ScanStats0 [locked_file, ?c] =
        (w1, ScanStats0, Some ''permission denied'')"
    using on_error_abort_is_final [where ?w0.0 = "world0 None" and s = NewScanner
        and c = locked_file and ?e0.0 = "''permission denied''" and e = "''permission denied''"
        and ?st0.0 = ScanStats0 and cs = "[?c]"] live locked
    by blast
  then have locked_loop: "scan_children NewScanner (world0 None) ScanStats0 [locked_file, ?c] =
      scan NewScanner (world0 None) ScanStats0 locked_file"
    by (elim exE conjE) (simp only:)
  have srv_r: "snd ?srv = Some ''permission denied''"
    using on_error_abort_is_final [where s = NewScanner and w = "world0 None"
        and resolveRelativeTargets = keep_targets and newTree = flat_tree
        and targets = "[LazyTarget ''/srv'' (Inr srv_dir)]" and w' = "fst ?srv" and r = "snd ?srv"
        and p = "''/srv/vault''" and ?e0.0 = "''permission denied''"
        and e = "''permission denied''"] srv_run srv_evs pol(1)
    by blast
  have data_r: "snd ?data = Some ''permission denied''"
    using on_error_abort_is_final [where s = NewScanner and w = "world0 None"
        and resolveRelativeTargets = keep_targets and newTree = flat_tree
        and targets = "[LazyTarget ''/data'' (Inr data_dir)]" and w' = "fst ?data"
        and r = "snd ?data" and p = "''/data/b''" and ?e0.0 = "''permission denied''"
        and e = "''permission denied''"] data_run data_evs pol(2)
    by blast
  from live vault locked vault_run locked_run vault_loop locked_loop srv_evs srv_r data_evs
    data_r
  show ?thesis by (simp only: simp_thms)
qed

text \<open>
  C9. A failed \<^verbatim>\<open>Abs()\<close> of a leaf ends the scan with its error, for every scanner \<open>s\<close>,
  whatever its \<^verbatim>\<open>Error\<close> policy answers: \<^verbatim>\<open>Scan\<close> returns that error and the failed call
  is the last event, so the policy is not consulted about it.
\<close>

theorem abs_failure_aborts_unconditionally:
  assumes "Scan resolveRelativeTargets newTree s w targets = (w', r)"
    and "new_events w w' = pre @ AbsCall p (Some e) # post"
  shows "r = Some e \<and> post = []"
  using assms(1,2) by (rule Scan_fatal_event) simp

theorem abs_failure_aborts_unconditionally_witness:
  "new_events (world0 None)
      (fst (Scan keep_targets flat_tree skip_errors (world0 None)
         [LazyTarget ''/z'' (Inr (regular_file ''z'' ''/z'' 1)),
          LazyTarget ''elsewhere'' (Inl ''getwd: no such file or directory'')])) =
     [AbsCall ''/z'' None, InitCall ''/z'',
      ResultCall ''/z'' \<lparr>Files = 1, Dirs = 0, Others = 0, Bytes = 1\<rparr>] @
     AbsCall ''elsewhere'' (Some ''getwd: no such file or directory'') # [] \<and>
   Error skip_errors ''elsewhere'' ''getwd: no such file or directory'' = None \<and>
   snd (Scan keep_targets flat_tree skip_errors (world0 None)
         [LazyTarget ''/z'' (Inr (regular_file ''z'' ''/z'' 1)),
          LazyTarget ''elsewhere'' (Inl ''getwd: no such file or directory'')]) =
     Some ''getwd: no such file or directory''"
proof -
  let ?run = "Scan keep_targets flat_tree skip_errors (world0 None)
         [LazyTarget ''/z'' (Inr (regular_file ''z'' ''/z'' 1)),
          LazyTarget ''elsewhere'' (Inl ''getwd: no such file or directory'')]"
  have run: "?run = (fst ?run, snd ?run)"
    by simp
  have evs: "new_events (world0 None) (fst ?run) =
     [AbsCall ''/z'' None, InitCall ''/z'',
      ResultCall ''/z'' \<lparr>Files = 1, Dirs = 0, Others = 0, Bytes = 1\<rparr>] @
     AbsCall ''elsewhere'' (Some ''getwd: no such file or directory'') # []"
    by code_simp
  have pol: "Error skip_errors ''elsewhere'' ''getwd: no such file or directory'' = None"
    by (simp add: skip_errors_def)
  from abs_failure_aborts_unconditionally [OF run evs] evs pol show ?thesis
    by simp
qed

subsection \<open>The statistics returned are the ones reported last\<close>

lemma result_stats_append [simp]: "result_stats (evs @ evs') = result_stats evs @ result_stats evs'"
  by (induction evs rule: result_stats.induct) simp_all

lemma latest_simps [simp]:
  "latest st [] = st"
  "latest st (evs @ [ResultCall p x]) = x"
  "latest st (AbsCall q oe # evs) = latest st evs"
  "latest st (InitCall q # evs) = latest st evs"
  "latest st (ChildrenCall q # evs) = latest st evs"
  "latest st (ErrorCall q e # evs) = latest st evs"
  by (simp_all add: latest_def)

lemma latest_append: "latest st (evs @ evs') = latest (latest st evs) evs'"
  by (cases "result_stats evs' = []") (simp_all add: latest_def)

lemma scan_latest:
  "scan s w st t = (w', st', r) \<Longrightarrow> st' = latest st (new_events w w')"
  "scan_children s w st cs = (w', st', r) \<Longrightarrow> st' = latest st (new_events w w')"
proof (induction s w st t and s w st cs arbitrary: w' st' r and w' st' r rule: scan_induct)
  case (dir s w st t)
  from dir.hyps dir.prems(1) show ?case
  proof (cases rule: scan_dir_cases)
    case (abort e)
    then show ?thesis using dir.IH [OF abort(1)] by simp
  next
    case (finished w2 st2)
    then show ?thesis
      using latest_simps(2) [of st "InitCall (Path t) # ChildrenCall (Path t) # new_events (listed t w) w2"]
      by simp
  qed
next
  case (cons s w st c cs)
  from cons.prems(1) show ?case
  proof (cases rule: scan_children_cases)
    case (abort e)
    then show ?thesis using cons.IH(1) by simp
  next
    case (continue w1 st1)
    then show ?thesis
      using cons.IH(1) [OF continue(1)] cons.IH(2) [OF continue(1,2)] by (simp add: latest_append)
  qed
next
  case (regular s w st t)
  then show ?case
    using latest_simps(2) [of st "[InitCall (Path t)]"] by (auto simp: scan_regular)
next
  case (other s w st t)
  then show ?case
    using latest_simps(2) [of st "[InitCall (Path t)]"] by (auto simp: scan_other)
qed (auto simp: scan_cancelled scan_rejected scan_unselected scan_init_err scan_list_err)

lemma scanTree_latest:
  "scanTree s w st tr = (w', st', None) \<Longrightarrow> st' = latest st (new_events w w')"
  "scanTree_nodes s w st nodes names = (w', st', None) \<Longrightarrow> st' = latest st (new_events w w')"
proof (induction s w st tr and s w st nodes names arbitrary: w' st' and w' st'
    rule: scanTree_induct)
  case (leaf_err s w st fm e)
  then show ?case by (auto simp: scanTree_Leaf_err)
next
  case (leaf_ok s w st fm t)
  from leaf_ok.hyps leaf_ok.prems show ?case
  proof (cases rule: scanTree_Leaf_ok_cases)
    case (1 st1)
    then show ?thesis using scan_latest(1) [OF 1(1)] by simp
  qed
next
  case (node s w st nodes)
  then show ?case by (simp add: scanTree.simps)
next
  case (nil s w st nodes)
  then show ?case by auto
next
  case (missing s w st nodes name names)
  then show ?case by (simp add: scanTree_nodes_missing)
next
  case (found s w st nodes name names t)
  from found.hyps found.prems show ?case
  proof (cases rule: scanTree_nodes_cases)
    case (abort st1 e)
    then show ?thesis by simp
  next
    case (stop w1)
    then show ?thesis using found.IH(1) [OF stop(1)] by simp
  next
    case (continue w1 st1)
    then show ?thesis
      using found.IH(1) [OF continue(1)] found.IH(2) [OF continue(1,2,3)]
      by (simp add: latest_append)
  qed
qed

subsection \<open>Cancellation\<close>

lemma observed_simps [simp]:
  "observed (emit ev w) = observed w"
  by (simp add: observed_def split: option.splits)

lemma observed_tick: "\<not> cancelled w \<Longrightarrow> \<not> observed (tick w)"
  by (auto simp: observed_def cancelled_iff split: option.splits)

lemma observed_entered [simp]: "\<not> cancelled w \<Longrightarrow> \<not> observed (entered t w)"
  "\<not> cancelled w \<Longrightarrow> \<not> observed (listed t w)"
  by (simp_all add: entered_def listed_def observed_tick)

lemma scan_observed:
  "scan s w st t = (w', st', r) \<Longrightarrow> observed w' \<Longrightarrow> r = None"
  "scan_children s w st cs = (w', st', r) \<Longrightarrow> observed w' \<Longrightarrow> r = None"
proof (induction s w st t and s w st cs arbitrary: w' st' r and w' st' r rule: scan_induct)
  case (dir s w st t)
  from dir.hyps dir.prems(1) show ?case
  proof (cases rule: scan_dir_cases)
    case (abort e)
    then show ?thesis using dir.IH [OF abort(1)] dir.prems(2) by simp
  next
    case (finished w2 st2)
    then show ?thesis by simp
  qed
next
  case (cons s w st c cs)
  from cons.prems(1) show ?case
  proof (cases rule: scan_children_cases)
    case (abort e)
    then show ?thesis using cons.IH(1) cons.prems(2) by simp
  next
    case (continue w1 st1)
    then show ?thesis using cons.IH(2) [OF continue(1,2)] cons.prems(2) by simp
  qed
qed (auto simp: scan_cancelled scan_rejected scan_unselected scan_regular scan_other
    scan_init_err scan_list_err)

lemma scanTree_observed:
  "\<not> observed w \<Longrightarrow> scanTree s w st tr = (w', st', r) \<Longrightarrow> observed w' \<Longrightarrow> r = None"
  "\<not> observed w \<Longrightarrow> scanTree_nodes s w st nodes names = (w', st', r) \<Longrightarrow> observed w' \<Longrightarrow> r = None"
proof (induction s w st tr and s w st nodes names arbitrary: w' st' r and w' st' r
    rule: scanTree_induct)
  case (leaf_err s w st fm e)
  then show ?case by (auto simp: scanTree_Leaf_err)
next
  case (leaf_ok s w st fm t)
  from leaf_ok.hyps leaf_ok.prems(2) show ?case
  proof (cases rule: scanTree_Leaf_ok_cases)
    case (1 st1)
    then show ?thesis using scan_observed(1) leaf_ok.prems(3) by blast
  qed
next
  case (node s w st nodes)
  then show ?case by (simp add: scanTree.simps)
next
  case (nil s w st nodes)
  then show ?case by auto
next
  case (missing s w st nodes name names)
  then show ?case by (simp add: scanTree_nodes_missing)
next
  case (found s w st nodes name names t)
  from found.hyps found.prems(2) show ?case
  proof (cases rule: scanTree_nodes_cases)
    case (abort st1 e)
    then show ?thesis using found.IH(1) [OF found.prems(1) abort(1)] found.prems(3) by simp
  next
    case (stop w1)
    then show ?thesis by simp
  next
    case (continue w1 st1)
    then show ?thesis
      using found.IH(2) [OF continue(1,2) observed_tick [OF continue(2)] continue(3)] found.prems(3)
      by simp
  qed
qed

text \<open>
  C10. A scan starts in a world in which no \<^verbatim>\<open>ctx.Err()\<close> call has seen a cancellation.
  If some call of the scan sees it, \<^verbatim>\<open>Scan\<close> returns \<^verbatim>\<open>nil\<close>. Whenever \<^verbatim>\<open>Scan\<close> returns \<^verbatim>\<open>nil\<close>,
  after a cancellation or not, its last event is the \<^verbatim>\<open>Result\<close> callback with the empty
  path, carrying the statistics \<open>scanTree\<close> returned, which are the ones reported last
  before (the zero value, if nothing was reported). So neither the returned error nor
  the final callback tells a cancelled scan from a completed one.
\<close>

theorem cancelled_scan_ends_like_a_completed_one:
  assumes "build_tree resolveRelativeTargets newTree targets = Inr tree"
    and "\<not> observed w"
    and "Scan resolveRelativeTargets newTree s w targets = (w', r)"
  shows "(observed w' \<longrightarrow> r = None) \<and>
    (r = None \<longrightarrow>
       (\<exists>w1 stats. scanTree s w ScanStats0 tree = (w1, stats, None) \<and>
          new_events w w' = new_events w w1 @ [ResultCall [] stats] \<and>
          stats = latest ScanStats0 (new_events w w1)))"
  using assms(3)
proof (cases rule: Scan_cases)
  case (unbuilt e)
  with assms(1) show ?thesis by simp
next
  case (abort tree' st1 e)
  with assms(1) have "scanTree s w ScanStats0 tree = (w', st1, Some e)" by simp
  from scanTree_observed(1) [OF assms(2) this] abort(3) show ?thesis by auto
next
  case (finished tree' w1 stats)
  with assms(1) have t: "scanTree s w ScanStats0 tree = (w1, stats, None)" by simp
  from scanTree_latest(1) [OF t] finished t show ?thesis by simp
qed

theorem cancelled_scan_ends_like_a_completed_one_witness:
  "build_tree keep_targets flat_tree [LazyTarget ''/home'' (Inr home_dir)] =
     Inr (Node [(''/home'', Leaf (LazyTarget ''/home'' (Inr home_dir)))]) \<and>
   \<not> observed (world0 (Some 2)) \<and>
   observed (fst (Scan keep_targets flat_tree NewScanner (world0 (Some 2))
     [LazyTarget ''/home'' (Inr home_dir)])) \<and>
   snd (Scan keep_targets flat_tree NewScanner (world0 (Some 2))
     [LazyTarget ''/home'' (Inr home_dir)]) = None \<and>
   new_events (world0 (Some 2)) (fst (Scan keep_targets flat_tree NewScanner (world0 (Some 2))
     [LazyTarget ''/home'' (Inr home_dir)])) =
     [AbsCall ''/home'' None, InitCall ''/home'', ChildrenCall ''/home'',
      InitCall ''/home/cache'', ChildrenCall ''/home/cache'',
      ResultCall ''/home/cache'' \<lparr>Files = 0, Dirs = 1, Others = 0, Bytes = 0\<rparr>,
      ResultCall ''/home'' \<lparr>Files = 0, Dirs = 2, Others = 0, Bytes = 0\<rparr>,
      ResultCall [] \<lparr>Files = 0, Dirs = 2, Others = 0, Bytes = 0\<rparr>] \<and>
   snd (Scan keep_targets flat_tree NewScanner (world0 None)
     [LazyTarget ''/home'' (Inr home_dir)]) = None \<and>
   last (new_events (world0 None) (fst (Scan keep_targets flat_tree NewScanner (world0 None)
     [LazyTarget ''/home'' (Inr home_dir)]))) =
     ResultCall [] \<lparr>Files = 2, Dirs = 2, Others = 0, Bytes = 12\<rparr>"
proof -
  let ?run = "Scan keep_targets flat_tree NewScanner (world0 (Some 2))
     [LazyTarget ''/home'' (Inr home_dir)]"
  have built: "build_tree keep_targets flat_tree [LazyTarget ''/home'' (Inr home_dir)] =
     Inr (Node [(''/home'', Leaf (LazyTarget ''/home'' (Inr home_dir)))])"
    by (simp add: build_tree_def keep_targets_def flat_tree_def)
  have fresh: "\<not> observed (world0 (Some 2))"
    by (simp add: observed_def world0_def)
  have run: "?run = (fst ?run, snd ?run)"
    by simp
  have seen: "observed (fst ?run)"
    by code_simp
  have evs: "new_events (world0 (Some 2)) (fst ?run) =
     [AbsCall ''/home'' None, InitCall ''/home'', ChildrenCall ''/home'',
      InitCall ''/home/cache'', ChildrenCall ''/home/cache'',
      ResultCall ''/home/cache'' \<lparr>Files = 0, Dirs = 1, Others = 0, Bytes = 0\<rparr>,
      ResultCall ''/home'' \<lparr>Files = 0, Dirs = 2, Others = 0, Bytes = 0\<rparr>,
      ResultCall [] \<lparr>Files = 0, Dirs = 2, Others = 0, Bytes = 0\<rparr>]"
    by code_simp
  have full: "snd (Scan keep_targets flat_tree NewScanner (world0 None)
     [LazyTarget ''/home'' (Inr home_dir)]) = None"
    "last (new_events (world0 None) (fst (Scan keep_targets flat_tree NewScanner (world0 None)
     [LazyTarget ''/home'' (Inr home_dir)]))) =
     ResultCall [] \<lparr>Files = 2, Dirs = 2, Others = 0, Bytes = 12\<rparr>"
    by code_simp+
  from cancelled_scan_ends_like_a_completed_one [OF built fresh run] seen
  have "snd ?run = None" by blast
  with built fresh seen evs full show ?thesis by simp
qed

lemma cancelled_steps [simp]:
  "cancelled w \<Longrightarrow> cancelled (tick w)"
  "cancelled (emit ev w) = cancelled w"
  by (auto simp: cancelled_iff)

lemma cancelled_frame: "frame w w' \<Longrightarrow> cancelled w \<Longrightarrow> cancelled w'"
  by (auto simp: cancelled_iff frame_def)

lemma scan_children_cancelled:
  "cancelled w \<Longrightarrow> scan_children s w st cs = (w', st', r) \<Longrightarrow>
     st' = st \<and> r = None \<and> new_events w w' = []"
proof (induction cs arbitrary: w)
  case Nil
  then show ?case by simp
next
  case (Cons c cs)
  from Cons.prems have "scan_children s (tick w) st cs = (w', st', r)"
    by (simp add: scan_cancelled)
  from Cons.IH [OF _ this] Cons.prems(1) show ?case by simp
qed

lemma scanTree_cancelled:
  "cancelled w \<Longrightarrow> scanTree s w st tr = (w', st', r) \<Longrightarrow>
     list_all is_abs (new_events w w') \<and> (r = None \<longrightarrow> st' = st)"
  "cancelled w \<Longrightarrow> scanTree_nodes s w st nodes names = (w', st', r) \<Longrightarrow>
     list_all is_abs (new_events w w') \<and> (r = None \<longrightarrow> st' = st)"
proof (induction s w st tr and s w st nodes names arbitrary: w' st' r and w' st' r
    rule: scanTree_induct)
  case (leaf_err s w st fm e)
  then show ?case by (auto simp: scanTree_Leaf_err new_events_emit)
next
  case (leaf_ok s w st fm t)
  from leaf_ok.hyps leaf_ok.prems(2) show ?case
  proof (cases rule: scanTree_Leaf_ok_cases)
    case (1 st1)
    then show ?thesis using leaf_ok.prems(1) by (auto simp: scan_cancelled)
  qed
next
  case (node s w st nodes)
  then show ?case by (simp add: scanTree.simps)
next
  case (nil s w st nodes)
  then show ?case by auto
next
  case (missing s w st nodes name names)
  then show ?case by (simp add: scanTree_nodes_missing)
next
  case (found s w st nodes name names t)
  from found.hyps found.prems(2) show ?case
  proof (cases rule: scanTree_nodes_cases)
    case (abort st1 e)
    then show ?thesis using found.IH(1) [OF found.prems(1) abort(1)] by simp
  next
    case (stop w1)
    then show ?thesis using found.IH(1) [OF found.prems(1) stop(1)] by simp
  next
    case (continue w1 st1)
    then show ?thesis
      using cancelled_frame [OF scanTree_frame(1) [OF continue(1)] found.prems(1)] by simp
  qed
qed

text \<open>
  C4, as the code has it. \<^verbatim>\<open>scanTree\<close> resolves the absolute path of a leaf before
  \<^verbatim>\<open>scan\<close> looks at the context for the first time, so a scan that is cancelled from the
  start still returns the error of a failed \<^verbatim>\<open>Abs()\<close>, and makes no final \<^verbatim>\<open>Result\<close>
  callback. The same holds when the tree of the targets cannot be built: \<^verbatim>\<open>Scan\<close> returns
  the error of the builder before it looks at the context at all.
\<close>

theorem pre_cancelled_scan_counterexample:
  "cancelled (world0 (Some 0)) \<and>
   Scan keep_targets flat_tree NewScanner (world0 (Some 0))
     [LazyTarget ''elsewhere'' (Inl ''getwd: no such file or directory'')] =
   (\<lparr>cancel_after = Some 0, polls = 0,
      trace = [AbsCall ''elsewhere'' (Some ''getwd: no such file or directory'')]\<rparr>,
    Some ''getwd: no such file or directory'') \<and>
   Scan reject_targets flat_tree NewScanner (world0 (Some 0))
     [LazyTarget ''/home'' (Inr home_dir)] =
   (\<lparr>cancel_after = Some 0, polls = 0, trace = []\<rparr>,
    Some ''getwd: no such file or directory'')"
  by code_simp

text \<open>
  C4, amended. If the tree of the targets is built, the context is cancelled before the
  scan starts and no \<^verbatim>\<open>Abs()\<close> call of the scan fails, then \<^verbatim>\<open>Scan\<close> returns \<^verbatim>\<open>nil\<close>; apart from
  \<^verbatim>\<open>Abs()\<close> calls the only event is the final \<^verbatim>\<open>Result\<close> callback with the empty path, and it
  carries the zero value of \<^verbatim>\<open>ScanStats\<close>. No entry is initialised, listed or reported.
  And in every scan, cancelled or not, an error that \<^verbatim>\<open>Scan\<close> returns is the error of
  one of the two builders of the tree, or the error of a failed \<^verbatim>\<open>Abs()\<close>, or the answer of
  the \<^verbatim>\<open>Error\<close> policy, and that call is the last event of the scan: no error is made from
  the cancellation.
\<close>

theorem pre_cancelled_scan:
  fixes w :: "'u::len uint world"
  assumes "Scan resolveRelativeTargets newTree s w targets = (w', r)"
  shows "(build_tree resolveRelativeTargets newTree targets = Inr tree \<and> cancelled w \<and>
       (\<forall>p e. AbsCall p (Some e) \<notin> set (new_events w w')) \<longrightarrow>
       r = None \<and>
       (\<exists>evs. new_events w w' = evs @ [ResultCall [] ScanStats0] \<and> list_all is_abs evs)) \<and>
    (r = Some e \<longrightarrow>
       build_tree resolveRelativeTargets newTree targets = Inl e \<or>
       (\<exists>evs p. new_events w w' = evs @ [AbsCall p (Some e)]) \<or>
       (\<exists>evs p e0. new_events w w' = evs @ [ErrorCall p e0] \<and> Error s p e0 = Some e))"
  using assms
proof (cases rule: Scan_cases)
  case (unbuilt e')
  then show ?thesis by simp
next
  case (abort tree' st1 e')
  let ?evs = "new_events w w'"
  have "ends_with s ?evs (Some e')" using abort(2) by (rule scanTree_ends_with(1))
  then have ne: "?evs \<noteq> []" and l: "fatal_err s (last ?evs) = Some e'"
    by (simp_all add: ends_with_def)
  from ne have snoc: "?evs = butlast ?evs @ [last ?evs]" by simp
  have origin: "(\<exists>evs p. ?evs = evs @ [AbsCall p (Some e')]) \<or>
      (\<exists>evs p e0. ?evs = evs @ [ErrorCall p e0] \<and> Error s p e0 = Some e')"
  proof (cases "last ?evs")
    case (AbsCall p oe)
    with l snoc have "?evs = butlast ?evs @ [AbsCall p (Some e')]" by simp
    then show ?thesis by blast
  next
    case (ErrorCall p e0)
    with l snoc have "?evs = butlast ?evs @ [ErrorCall p e0]" "Error s p e0 = Some e'"
      by simp_all
    then show ?thesis by blast
  qed (use l in simp_all)
  have "\<exists>p e. AbsCall p (Some e) \<in> set ?evs"
    if "build_tree resolveRelativeTargets newTree targets = Inr tree" "cancelled w"
  proof -
    from that(1) abort(1,2) have t: "scanTree s w ScanStats0 tree = (w', st1, Some e')" by simp
    have "is_abs (last ?evs)"
      using scanTree_cancelled(1) [OF that(2) t] ne by (simp add: list_all_iff)
    then obtain p oe where "last ?evs = AbsCall p oe"
      by (cases "last ?evs") simp_all
    with l have "last ?evs = AbsCall p (Some e')" by simp
    with ne have "AbsCall p (Some e') \<in> set ?evs"
      using last_in_set by metis
    then show ?thesis by blast
  qed
  with origin abort(3) show ?thesis by auto
next
  case (finished tree' w1 stats)
  have "new_events w w' = new_events w w1 @ [ResultCall [] ScanStats0] \<and>
      list_all is_abs (new_events w w1)"
    if "build_tree resolveRelativeTargets newTree targets = Inr tree" "cancelled w"
  proof -
    from that(1) finished(1,2) have t: "scanTree s w ScanStats0 tree = (w1, stats, None)"
      by simp
    from scanTree_cancelled(1) [OF that(2) t] finished(5) show ?thesis by simp
  qed
  with finished(4) show ?thesis by blast
qed

theorem pre_cancelled_scan_witness:
  "build_tree keep_targets flat_tree [LazyTarget ''/home'' (Inr home_dir)] =
     Inr (Node [(''/home'', Leaf (LazyTarget ''/home'' (Inr home_dir)))]) \<and>
   cancelled (world0 (Some 0)) \<and>
   new_events (world0 (Some 0)) (fst (Scan keep_targets flat_tree NewScanner (world0 (Some 0))
     [LazyTarget ''/home'' (Inr home_dir)])) = [AbsCall ''/home'' None, ResultCall [] ScanStats0] \<and>
   snd (Scan keep_targets flat_tree NewScanner (world0 (Some 0))
     [LazyTarget ''/home'' (Inr home_dir)]) = None \<and>
   snd (Scan keep_targets flat_tree NewScanner (world0 (Some 3))
     [LazyTarget ''/srv'' (Inr srv_dir)]) = Some ''permission denied'' \<and>
   build_tree keep_targets flat_tree [LazyTarget ''/srv'' (Inr srv_dir)] \<noteq>
     Inl ''permission denied'' \<and>
   (\<exists>evs p e0.
      new_events (world0 (Some 3)) (fst (Scan keep_targets flat_tree NewScanner (world0 (Some 3))
        [LazyTarget ''/srv'' (Inr srv_dir)])) = evs @ [ErrorCall p e0] \<and>
      Error NewScanner p e0 = Some ''permission denied'') \<and>
   last (new_events (world0 (Some 3)) (fst (Scan keep_targets flat_tree NewScanner (world0 (Some 3))
        [LazyTarget ''/srv'' (Inr srv_dir)]))) = ErrorCall ''/srv/vault'' ''permission denied''"
proof -
  let ?run = "Scan keep_targets flat_tree NewScanner (world0 (Some 0))
     [LazyTarget ''/home'' (Inr home_dir)]"
  let ?srv = "Scan keep_targets flat_tree NewScanner (world0 (Some 3))
     [LazyTarget ''/srv'' (Inr srv_dir)]"
  have built: "build_tree keep_targets flat_tree [LazyTarget ''/home'' (Inr home_dir)] =
     Inr (Node [(''/home'', Leaf (LazyTarget ''/home'' (Inr home_dir)))])"
    by (simp add: build_tree_def keep_targets_def flat_tree_def)
  have c: "cancelled (world0 (Some 0))"
    by (simp add: cancelled_iff world0_def)
  have run: "?run = (fst ?run, snd ?run)" and srv: "?srv = (fst ?srv, snd ?srv)"
    by simp_all
  have evs: "new_events (world0 (Some 0)) (fst ?run) = [AbsCall ''/home'' None, ResultCall [] ScanStats0]"
    by code_simp
  then have ok: "\<forall>p e. AbsCall p (Some e) \<notin> set (new_events (world0 (Some 0)) (fst ?run))"
    by simp
  have r: "snd ?run = None"
    using pre_cancelled_scan [OF run, where tree = "Node [(''/home'', Leaf (LazyTarget ''/home'' (Inr home_dir)))]"]
      built c ok by blast
  have failed: "snd ?srv = Some ''permission denied''"
    by code_simp
  have srv_built: "build_tree keep_targets flat_tree [LazyTarget ''/srv'' (Inr srv_dir)] \<noteq>
      Inl ''permission denied''"
    by (simp add: build_tree_def keep_targets_def flat_tree_def)
  have no_abs: "\<forall>evs p. new_events (world0 (Some 3)) (fst ?srv) \<noteq>
      evs @ [AbsCall p (Some ''permission denied'')]"
  proof (intro allI notI)
    fix evs p
    assume "new_events (world0 (Some 3)) (fst ?srv) = evs @ [AbsCall p (Some ''permission denied'')]"
    then have "last (new_events (world0 (Some 3)) (fst ?srv)) = AbsCall p (Some ''permission denied'')"
      by (simp only: last_snoc)
    moreover have "last (new_events (world0 (Some 3)) (fst ?srv)) =
        ErrorCall ''/srv/vault'' ''permission denied''"
      by code_simp
    ultimately show False by simp
  qed
  have l: "last (new_events (world0 (Some 3)) (fst ?srv)) =
      ErrorCall ''/srv/vault'' ''permission denied''"
    by code_simp
  have origin: "\<exists>evs p e0. new_events (world0 (Some 3)) (fst ?srv) = evs @ [ErrorCall p e0] \<and>
      Error NewScanner p e0 = Some ''permission denied''"
    using pre_cancelled_scan [OF srv, where e = "''permission denied''"] failed srv_built no_abs
    by blast
  from built c evs r failed srv_built origin l show ?thesis
    by (simp only: simp_thms)
qed

subsection \<open>Directories\<close>

lemma threaded_nil: "threaded s (w, st, None) cs []"
  by (simp add: threaded_def)

lemma threaded_abort:
  "scan s w st c = (w1, st1, Some e) \<Longrightarrow> threaded s (w, st, None) (c # cs) [(w1, st1, Some e)]"
  by (simp add: threaded_def)

lemma threaded_continue:
  "scan s w st c = (w1, st1, None) \<Longrightarrow> threaded s (w1, st1, None) cs rs \<Longrightarrow>
   threaded s (w, st, None) (c # cs) ((w1, st1, None) # rs)"
  by (cases rs) (auto simp: threaded_def)

lemma scan_children_threaded:
  "scan_children s w st cs = (w', st', r) \<Longrightarrow>
   \<exists>rs. threaded s (w, st, None) cs rs \<and> last ((w, st, None) # rs) = (w', st', r) \<and>
     (r = None \<longrightarrow> length rs = length cs)"
proof (induction cs arbitrary: w st)
  case Nil
  then show ?case using threaded_nil [of s w st "[]"] by auto
next
  case (Cons c cs)
  from Cons.prems show ?case
  proof (cases rule: scan_children_cases)
    case (abort e)
    then show ?thesis
      using threaded_abort [OF abort(1), of cs] by (intro exI [of _ "[(w', st', Some e)]"]) simp
  next
    case (continue w1 st1)
    from Cons.IH [OF continue(2)] obtain rs where rs: "threaded s (w1, st1, None) cs rs"
      "last ((w1, st1, None) # rs) = (w', st', r)" "r = None \<longrightarrow> length rs = length cs"
      by blast
    show ?thesis
      using threaded_continue [OF continue(1) rs(1)] rs(2,3)
      by (intro exI [of _ "(w1, st1, None) # rs"]) simp
  qed
qed

lemma sorted_children_unique:
  assumes "mset ys = mset cs" and "sorted (map Name ys)" and "distinct (map Name cs)"
  shows "ys = sort_key Name cs"
proof -
  have "mset (map Name ys) = mset (map Name cs)" using assms(1) by (metis mset_map)
  then have "distinct (map Name ys)" using assms(3) by (metis mset_eq_imp_distinct_iff)
  then have "inj_on Name (set ys)" by (simp add: distinct_map)
  with assms(1) have "sort_key Name ys = sort_key Name cs"
    by (intro sort_key_eq_sort_key)
  moreover have "sort_key Name ys = ys" using assms(2) by (rule sort_key_id_if_sorted)
  ultimately show ?thesis by simp
qed

text \<open>
  C7. Let \<open>t\<close> be a directory that is selected and whose listing succeeds, with children
  of different names, and let \<open>ys\<close> be its children sorted by name: the entries of the
  listing, in ascending order of their names. Then \<^verbatim>\<open>scan\<close> initialises and lists \<open>t\<close> and
  after that calls itself on the entries of \<open>ys\<close>, one after the other in this order: the
  first call starts from the statistics \<^verbatim>\<open>scan\<close> was given, every later one from the world
  and the statistics the call before it returned, and a call is made only if the one
  before it returned \<^verbatim>\<open>nil\<close>. If the last of these calls returns \<^verbatim>\<open>nil\<close>, there has been a
  call for every child; the directory counter of the statistics it returned is
  incremented, and the \<^verbatim>\<open>Result\<close> callback of the directory, with these statistics, is the
  last event, after all events of the children. If a call returns an error, \<^verbatim>\<open>scan\<close>
  returns what that call returned: the directory is neither counted nor reported.
\<close>

theorem directory_counted_and_reported_after_children:
  assumes "\<not> cancelled w" and "SelectByName s (Name t)" and "Init t = None" and "Select s t"
    and "Mode t = ModeDir" and "ChildrenErr t = None"
    and "distinct (map Name (Children t))"
    and "mset ys = mset (Children t)" and "sorted (map Name ys)"
    and "scan s w st t = (w', st', r)"
  shows "\<exists>rs w2 st2 r2.
    threaded s (listed t w, st, None) ys rs \<and>
    last ((listed t w, st, None) # rs) = (w2, st2, r2) \<and>
    (if r2 = None
     then length rs = length ys \<and> r = None \<and> st' = st2\<lparr>Dirs := Dirs st2 + 1\<rparr> \<and>
       w' = emit (ResultCall (Path t) st') w2 \<and>
       new_events w w' = InitCall (Path t) # ChildrenCall (Path t) #
         new_events (listed t w) w2 @ [ResultCall (Path t) st']
     else r = r2 \<and> st' = st2 \<and> w' = w2)"
proof -
  have ys: "sort_key Name (Children t) = ys"
    using assms(8,9,7) by (rule sorted_children_unique [symmetric])
  from assms(1-6,10) show ?thesis
  proof (cases rule: scan_dir_cases)
    case (abort e)
    from scan_children_threaded [OF abort(1)] obtain rs where
      "threaded s (listed t w, st, None) ys rs"
      "last ((listed t w, st, None) # rs) = (w', st', Some e)"
      unfolding ys by blast
    with abort(2) show ?thesis
      by (intro exI [of _ rs] exI [of _ w'] exI [of _ st'] exI [of _ "Some e"]) simp
  next
    case (finished w2 st2)
    from scan_children_threaded [OF finished(1)] obtain rs where
      "threaded s (listed t w, st, None) ys rs"
      "last ((listed t w, st, None) # rs) = (w2, st2, None)" "length rs = length ys"
      unfolding ys by auto
    with finished(2-5) show ?thesis
      by (intro exI [of _ rs] exI [of _ w2] exI [of _ st2] exI [of _ None]) simp
  qed
qed

theorem directory_counted_and_reported_after_children_witness:
  "\<not> cancelled (world0 None) \<and> SelectByName NewScanner (Name project_dir) \<and>
   Init project_dir = None \<and> Select NewScanner project_dir \<and> Mode project_dir = ModeDir \<and>
   ChildrenErr project_dir = None \<and>
   map Name (Children project_dir) = [''todo'', ''app''] \<and>
   distinct (map Name (Children project_dir)) \<and>
   mset [app_dir, todo_file] = mset (Children project_dir) \<and>
   sorted (map Name [app_dir, todo_file]) \<and>
   scan NewScanner (world0 None) ScanStats0 project_dir =
     (\<lparr>cancel_after = None, polls = 4,
        trace = [InitCall ''/project'', ChildrenCall ''/project'',
          InitCall ''/project/app'', ChildrenCall ''/project/app'',
          InitCall ''/project/app/main.go'',
          ResultCall ''/project/app/main.go'' \<lparr>Files = 1, Dirs = 0, Others = 0, Bytes = 9\<rparr>,
          ResultCall ''/project/app'' \<lparr>Files = 1, Dirs = 1, Others = 0, Bytes = 9\<rparr>,
          InitCall ''/project/todo'',
          ResultCall ''/project/todo'' \<lparr>Files = 2, Dirs = 1, Others = 0, Bytes = 13\<rparr>,
          ResultCall ''/project'' \<lparr>Files = 2, Dirs = 2, Others = 0, Bytes = 13\<rparr>]\<rparr>,
      \<lparr>Files = 2, Dirs = 2, Others = 0, Bytes = 13\<rparr>, None) \<and>
   snd (scan NewScanner (listed project_dir (world0 None)) ScanStats0 app_dir) =
     (\<lparr>Files = 1, Dirs = 1, Others = 0, Bytes = 9\<rparr>, None) \<and>
   snd (scan NewScanner
          (fst (scan NewScanner (listed project_dir (world0 None)) ScanStats0 app_dir))
          \<lparr>Files = 1, Dirs = 1, Others = 0, Bytes = 9\<rparr> todo_file) =
     (\<lparr>Files = 2, Dirs = 1, Others = 0, Bytes = 13\<rparr>, None) \<and>
   (\<exists>rs w2 st2.
      threaded NewScanner (listed project_dir (world0 None), ScanStats0, None)
        [app_dir, todo_file] rs \<and> length rs = 2 \<and>
      last ((listed project_dir (world0 None), ScanStats0, None) # rs) = (w2, st2, None) \<and>
      st2\<lparr>Dirs := Dirs st2 + 1\<rparr> = \<lparr>Files = 2, Dirs = 2, Others = 0, Bytes = 13\<rparr> \<and>
      fst (scan NewScanner (world0 None) ScanStats0 project_dir) =
        emit (ResultCall ''/project'' \<lparr>Files = 2, Dirs = 2, Others = 0, Bytes = 13\<rparr>) w2)"
proof -
  let ?run = "scan NewScanner (world0 None) ScanStats0 project_dir"
  let ?final = "\<lparr>Files = 2, Dirs = 2, Others = 0, Bytes = 13\<rparr> :: 64 uint ScanStats"
  have h: "\<not> cancelled (world0 None)" "SelectByName NewScanner (Name project_dir)"
    "Init project_dir = None" "Select NewScanner project_dir" "Mode project_dir = ModeDir"
    "ChildrenErr project_dir = None"
    by (simp_all add: cancelled_iff world0_def NewScanner_def project_dir_def directory_def)
  have names: "map Name (Children project_dir) = [''todo'', ''app'']"
    by code_simp
  have d: "distinct (map Name (Children project_dir))"
    unfolding names by simp
  have kids: "mset [app_dir, todo_file] = mset (Children project_dir)"
    by (simp add: project_dir_def directory_def)
  have ordered: "sorted (map Name [app_dir, todo_file])"
    by code_simp
  have run: "?run = (fst ?run, ?final, None)"
    by code_simp
  have full: "?run =
     (\<lparr>cancel_after = None, polls = 4,
        trace = [InitCall ''/project'', ChildrenCall ''/project'',
          InitCall ''/project/app'', ChildrenCall ''/project/app'',
          InitCall ''/project/app/main.go'',
          ResultCall ''/project/app/main.go'' \<lparr>Files = 1, Dirs = 0, Others = 0, Bytes = 9\<rparr>,
          ResultCall ''/project/app'' \<lparr>Files = 1, Dirs = 1, Others = 0, Bytes = 9\<rparr>,
          InitCall ''/project/todo'',
          ResultCall ''/project/todo'' \<lparr>Files = 2, Dirs = 1, Others = 0, Bytes = 13\<rparr>,
          ResultCall ''/project'' \<lparr>Files = 2, Dirs = 2, Others = 0, Bytes = 13\<rparr>]\<rparr>,
      ?final, None)"
    by code_simp
  have first: "snd (scan NewScanner (listed project_dir (world0 None)) ScanStats0 app_dir) =
     (\<lparr>Files = 1, Dirs = 1, Others = 0, Bytes = 9\<rparr>, None)"
    by code_simp
  have second: "snd (scan NewScanner
          (fst (scan NewScanner (listed project_dir (world0 None)) ScanStats0 app_dir))
          \<lparr>Files = 1, Dirs = 1, Others = 0, Bytes = 9\<rparr> todo_file) =
     (\<lparr>Files = 2, Dirs = 1, Others = 0, Bytes = 13\<rparr>, None)"
    by code_simp
  have path: "Path project_dir = ''/project''"
    by (simp add: project_dir_def directory_def)
  from directory_counted_and_reported_after_children [OF h d kids ordered run]
  obtain rs w2 st2 r2 where
    t: "threaded NewScanner (listed project_dir (world0 None), ScanStats0, None)
          [app_dir, todo_file] rs"
    and l: "last ((listed project_dir (world0 None), ScanStats0, None) # rs) = (w2, st2, r2)"
    and o: "if r2 = None
      then length rs = length [app_dir, todo_file] \<and> (None :: err option) = None \<and>
        ?final = st2\<lparr>Dirs := Dirs st2 + 1\<rparr> \<and>
        fst ?run = emit (ResultCall (Path project_dir) ?final) w2 \<and>
        new_events (world0 None) (fst ?run) =
          InitCall (Path project_dir) # ChildrenCall (Path project_dir) #
          new_events (listed project_dir (world0 None)) w2 @
          [ResultCall (Path project_dir) ?final]
      else None = r2 \<and> ?final = st2 \<and> fst ?run = w2"
    by blast
  from o have r2: "r2 = None" by (cases r2) simp_all
  with o have "length rs = 2" "st2\<lparr>Dirs := Dirs st2 + 1\<rparr> = ?final"
    "fst ?run = emit (ResultCall ''/project'' ?final) w2"
    by (simp_all add: path)
  with t l r2 have "\<exists>rs w2 st2.
      threaded NewScanner (listed project_dir (world0 None), ScanStats0, None)
        [app_dir, todo_file] rs \<and> length rs = 2 \<and>
      last ((listed project_dir (world0 None), ScanStats0, None) # rs) = (w2, st2, None) \<and>
      st2\<lparr>Dirs := Dirs st2 + 1\<rparr> = ?final \<and>
      fst ?run = emit (ResultCall ''/project'' ?final) w2"
    by blast
  with h names d kids ordered full first second show ?thesis
    by blast
qed

subsection \<open>The order of the children\<close>

text \<open>
  C1, as the code has it. The children are sorted with Go's \<^verbatim>\<open><\<close> on strings, which
  compares bytes: \<^verbatim>\<open>B\<close> (0x42) comes before \<^verbatim>\<open>a\<close> (0x61). The callbacks for the children of
  scenario D come in the order \<^verbatim>\<open>B\<close>, \<^verbatim>\<open>a\<close>, \<^verbatim>\<open>c\<close>, not \<^verbatim>\<open>a\<close>, \<^verbatim>\<open>B\<close>, \<^verbatim>\<open>c\<close>.
\<close>

theorem scenario_D_order_counterexample:
  "map Name (Children scenario_D) = [''B'', ''a'', ''c''] \<and>
   result_paths (new_events (world0 None) (fst (scan NewScanner (world0 None) ScanStats0 scenario_D))) =
     [''/d/B'', ''/d/a'', ''/d/c'', ''/d''] \<and>
   result_paths (new_events (world0 None) (fst (scan NewScanner (world0 None) ScanStats0 scenario_D))) \<noteq>
     [''/d/a'', ''/d/B'', ''/d/c'', ''/d'']"
  by code_simp

lemma result_paths_append [simp]: "result_paths (evs @ evs') = result_paths evs @ result_paths evs'"
  by (induction evs rule: result_paths.induct) simp_all

lemma live_steps [simp]:
  "cancel_after w = None \<Longrightarrow> \<not> cancelled w"
  by (simp add: cancelled_iff)

lemma live_frame: "frame w w' \<Longrightarrow> cancel_after w = None \<Longrightarrow> cancel_after w' = None"
  by (simp add: frame_def)

lemma scan_reported:
  assumes "cancel_after w = None" and "SelectByName s (Name x)" and "Init x = None" and "Select s x"
    and "Mode x = ModeDir \<longrightarrow> ChildrenErr x = None"
    and "scan s w st x = (w1, st1, None)"
  shows "\<exists>evs. new_events w w1 = evs @ [ResultCall (Path x) st1]"
proof (cases "Mode x")
  case ModeRegular
  with assms show ?thesis by (auto simp: scan_regular)
next
  case ModeOther
  with assms show ?thesis by (auto simp: scan_other)
next
  case ModeDir
  with assms have ce: "ChildrenErr x = None" by simp
  from live_steps [OF assms(1)] assms(2-4) ModeDir ce assms(6) show ?thesis
  proof (cases rule: scan_dir_cases)
    case (abort e)
    then show ?thesis by simp
  next
    case (finished w2 st2)
    then show ?thesis by simp
  qed
qed

lemma sorted_B_a_c: "sorted [''B'', ''a'', ''c'']"
  by code_simp

lemma sort_B_a_c:
  assumes "mset cs = {#b, a, c#}" and "Name b = ''B''" and "Name a = ''a''" and "Name c = ''c''"
  shows "sort_key Name cs = [b, a, c]"
proof (rule sort_key_inj_key_eq)
  show "mset cs = mset [b, a, c]" using assms(1) by simp
  have "set cs = {b, a, c}"
    using assms(1) by (metis mset.simps(1) mset.simps(2) set_mset_mset list.simps(15) empty_set)
  then show "inj_on Name (set cs)"
    using assms(2-4) by (auto simp: inj_on_def)
  show "sorted (map Name [b, a, c])"
    using assms(2-4) sorted_B_a_c by simp
qed

text \<open>
  C1, amended. A directory has three children named \<^verbatim>\<open>B\<close>, \<^verbatim>\<open>a\<close> and \<^verbatim>\<open>c\<close>, listed in
  any order. Then they are scanned in the order \<^verbatim>\<open>B\<close>, \<^verbatim>\<open>a\<close>, \<^verbatim>\<open>c\<close>. If they are selected,
  their metadata and listings can be read, and the scan is neither cancelled nor aborted,
  then the events of the directory are its \<^verbatim>\<open>Init\<close> and \<^verbatim>\<open>Children\<close> calls, the events below
  \<^verbatim>\<open>B\<close> ending with the \<^verbatim>\<open>Result\<close> callback for \<^verbatim>\<open>B\<close>, then those below \<^verbatim>\<open>a\<close> ending with the
  callback for \<^verbatim>\<open>a\<close>, then those below \<^verbatim>\<open>c\<close> ending with the callback for \<^verbatim>\<open>c\<close>, and the
  callback for the directory.
\<close>

theorem children_reported_in_byte_order:
  assumes "cancel_after w = None" and "SelectByName s (Name t)" and "Init t = None"
    and "Select s t" and "Mode t = ModeDir" and "ChildrenErr t = None"
    and "mset (Children t) = {#b, a, c#}"
    and "Name b = ''B''" and "Name a = ''a''" and "Name c = ''c''"
    and "\<forall>x \<in> set (Children t). SelectByName s (Name x) \<and> Init x = None \<and> Select s x \<and>
           (Mode x = ModeDir \<longrightarrow> ChildrenErr x = None)"
    and "scan s w st t = (w', st', None)"
  shows "sort_key Name (Children t) = [b, a, c] \<and>
    (\<exists>eb sb ea sa ec sc. new_events w w' =
       InitCall (Path t) # ChildrenCall (Path t) #
       eb @ ResultCall (Path b) sb # ea @ ResultCall (Path a) sa # ec @ ResultCall (Path c) sc #
       [ResultCall (Path t) st'])"
proof -
  have order: "sort_key Name (Children t) = [b, a, c]"
    using assms(7-10) by (rule sort_B_a_c)
  have "set (Children t) = {b, a, c}"
    using assms(7) by (metis mset.simps(1) mset.simps(2) set_mset_mset list.simps(15) empty_set)
  with assms(11) have
    fb: "SelectByName s (Name b)" "Init b = None" "Select s b"
      "Mode b = ModeDir \<longrightarrow> ChildrenErr b = None" and
    fa: "SelectByName s (Name a)" "Init a = None" "Select s a"
      "Mode a = ModeDir \<longrightarrow> ChildrenErr a = None" and
    fc: "SelectByName s (Name c)" "Init c = None" "Select s c"
      "Mode c = ModeDir \<longrightarrow> ChildrenErr c = None"
    by simp_all
  from live_steps [OF assms(1)] assms(2-6,12) obtain w3 st3 where
    kids: "scan_children s (listed t w) st (sort_key Name (Children t)) = (w3, st3, None)" and
    evs: "new_events w w' = InitCall (Path t) # ChildrenCall (Path t) #
      new_events (listed t w) w3 @ [ResultCall (Path t) st']"
    by (cases rule: scan_dir_cases) simp_all
  from kids order have k0: "scan_children s (listed t w) st [b, a, c] = (w3, st3, None)"
    by simp
  from k0 obtain w0 st0 where
    sb: "scan s (listed t w) st b = (w0, st0, None)" and
    k1: "scan_children s w0 st0 [a, c] = (w3, st3, None)" and
    e0: "new_events (listed t w) w3 = new_events (listed t w) w0 @ new_events w0 w3"
    by (cases rule: scan_children_cases) simp_all
  from k1 obtain w1 st1 where
    sa: "scan s w0 st0 a = (w1, st1, None)" and
    k2: "scan_children s w1 st1 [c] = (w3, st3, None)" and
    e1: "new_events w0 w3 = new_events w0 w1 @ new_events w1 w3"
    by (cases rule: scan_children_cases) simp_all
  from k2 obtain w2 st2 where
    sc: "scan s w1 st1 c = (w2, st2, None)" and
    k3: "scan_children s w2 st2 [] = (w3, st3, None)"
    by (cases rule: scan_children_cases) simp_all
  from k3 have w3: "w3 = w2" by simp
  have l0: "cancel_after (listed t w) = None" using assms(1) by simp
  have l1: "cancel_after w0 = None" using scan_frame(1) [OF sb] l0 by (rule live_frame)
  have l2: "cancel_after w1 = None" using scan_frame(1) [OF sa] l1 by (rule live_frame)
  obtain eb where eb: "new_events (listed t w) w0 = eb @ [ResultCall (Path b) st0]"
    using scan_reported [OF l0 fb sb] by blast
  obtain ea where ea: "new_events w0 w1 = ea @ [ResultCall (Path a) st1]"
    using scan_reported [OF l1 fa sa] by blast
  obtain ec where ec: "new_events w1 w2 = ec @ [ResultCall (Path c) st2]"
    using scan_reported [OF l2 fc sc] by blast
  have "new_events w w' = InitCall (Path t) # ChildrenCall (Path t) #
       eb @ ResultCall (Path b) st0 # ea @ ResultCall (Path a) st1 # ec @ ResultCall (Path c) st2 #
       [ResultCall (Path t) st']"
    using evs e0 e1 eb ea ec w3 by simp
  with order show ?thesis by blast
qed

theorem children_reported_in_byte_order_witness:
  "map Name (Children scenario_D_shuffled) = [''c'', ''B'', ''a''] \<and>
   mset (Children scenario_D_shuffled) =
     {#regular_file ''B'' ''/d/B'' 1, regular_file ''a'' ''/d/a'' 2, regular_file ''c'' ''/d/c'' 3#} \<and>
   snd (snd (scan NewScanner (world0 None) ScanStats0 scenario_D_shuffled)) = None \<and>
   sort_key Name (Children scenario_D_shuffled) =
     [regular_file ''B'' ''/d/B'' 1, regular_file ''a'' ''/d/a'' 2, regular_file ''c'' ''/d/c'' 3] \<and>
   result_paths (new_events (world0 None)
       (fst (scan NewScanner (world0 None) ScanStats0 scenario_D_shuffled))) =
     [''/d/B'', ''/d/a'', ''/d/c'', ''/d'']"
proof -
  let ?run = "scan NewScanner (world0 None) ScanStats0 scenario_D_shuffled"
  have h: "cancel_after (world0 None) = None" "SelectByName NewScanner (Name scenario_D_shuffled)"
    "Init scenario_D_shuffled = None" "Select NewScanner scenario_D_shuffled"
    "Mode scenario_D_shuffled = ModeDir" "ChildrenErr scenario_D_shuffled = None"
    by (simp_all add: world0_def NewScanner_def scenario_D_shuffled_def directory_def)
  have kids: "mset (Children scenario_D_shuffled) =
     {#regular_file ''B'' ''/d/B'' 1, regular_file ''a'' ''/d/a'' 2, regular_file ''c'' ''/d/c'' 3#}"
    by (simp add: scenario_D_shuffled_def directory_def)
  have names: "Name (regular_file ''B'' ''/d/B'' 1) = ''B''" "Name (regular_file ''a'' ''/d/a'' 2) = ''a''"
    "Name (regular_file ''c'' ''/d/c'' 3) = ''c''"
    by (simp_all add: regular_file_def)
  have ok: "\<forall>x \<in> set (Children scenario_D_shuffled).
      SelectByName NewScanner (Name x) \<and> Init x = None \<and> Select NewScanner x \<and>
      (Mode x = ModeDir \<longrightarrow> ChildrenErr x = None)"
    by (simp add: scenario_D_shuffled_def directory_def regular_file_def NewScanner_def)
  have r: "snd (snd ?run) = None"
    by code_simp
  then have run: "?run = (fst ?run, fst (snd ?run), None)"
    by (simp add: prod_eq_iff)
  have listing: "map Name (Children scenario_D_shuffled) = [''c'', ''B'', ''a'']"
    by (simp add: scenario_D_shuffled_def directory_def regular_file_def)
  from children_reported_in_byte_order [OF h kids names ok run] obtain eb sb ea sa ec sc where
    order: "sort_key Name (Children scenario_D_shuffled) =
      [regular_file ''B'' ''/d/B'' 1, regular_file ''a'' ''/d/a'' 2, regular_file ''c'' ''/d/c'' 3]" and
    evs: "new_events (world0 None) (fst ?run) =
       InitCall (Path scenario_D_shuffled) # ChildrenCall (Path scenario_D_shuffled) #
       eb @ ResultCall (Path (regular_file ''B'' ''/d/B'' 1)) sb #
       ea @ ResultCall (Path (regular_file ''a'' ''/d/a'' 2)) sa #
       ec @ ResultCall (Path (regular_file ''c'' ''/d/c'' 3)) sc #
       [ResultCall (Path scenario_D_shuffled) (fst (snd ?run))]"
    by blast
  have paths: "result_paths (new_events (world0 None) (fst ?run)) =
      [''/d/B'', ''/d/a'', ''/d/c'', ''/d'']"
    by code_simp
  from listing kids r order paths show ?thesis by simp
qed

subsection \<open>Errors that the policy skips\<close>

lemma add_stats_simps [simp]:
  "add_stats a ScanStats0 = a" "add_stats ScanStats0 a = a"
  by (simp_all add: add_stats_def ScanStats0_def)

lemma add_stats_assoc: "add_stats (add_stats a b) c = add_stats a (add_stats b c)"
  by (simp add: add_stats_def ac_simps)

lemma add_stats_commute: "add_stats a b = add_stats b a"
  by (simp add: add_stats_def ac_simps)

lemma add_stats_left_commute: "add_stats a (add_stats b c) = add_stats b (add_stats a c)"
  by (simp add: add_stats_def ac_simps)

lemma sum_stats_simps [simp]:
  "sum_stats [] = ScanStats0"
  "sum_stats (x # xs) = add_stats x (sum_stats xs)"
  by (simp_all add: sum_stats_def)

lemma sum_stats_append: "sum_stats (xs @ ys) = add_stats (sum_stats xs) (sum_stats ys)"
  by (induction xs) (simp_all add: add_stats_assoc)

lemma sum_stats_insort_key:
  "sum_stats (map f (insort_key g x xs)) = add_stats (f x) (sum_stats (map f xs))"
  by (induction xs) (simp_all add: add_stats_left_commute)

lemma sum_stats_sort_key: "sum_stats (map f (sort_key g xs)) = sum_stats (map f xs)"
  by (induction xs) (simp_all add: sum_stats_insort_key)

lemma contribution_skipped:
  "\<not> SelectByName s (Name t) \<Longrightarrow> contribution s t = ScanStats0"
  "Init t = Some e \<Longrightarrow> contribution s t = ScanStats0"
  "\<not> Select s t \<Longrightarrow> contribution s t = ScanStats0"
  "Mode t = ModeDir \<Longrightarrow> ChildrenErr t = Some e \<Longrightarrow> contribution s t = ScanStats0"
  by (cases t; simp)+

lemma contribution_counted:
  assumes "SelectByName s (Name t)" and "Init t = None" and "Select s t"
  shows "Mode t = ModeRegular \<Longrightarrow>
      contribution s t = \<lparr>Files = 1, Dirs = 0, Others = 0, Bytes = Size t\<rparr>"
    and "Mode t = ModeOther \<Longrightarrow>
      contribution s t = \<lparr>Files = 0, Dirs = 0, Others = 1, Bytes = 0\<rparr>"
    and "Mode t = ModeDir \<Longrightarrow> ChildrenErr t = None \<Longrightarrow>
      contribution s t = add_stats (sum_stats (map (contribution s) (Children t)))
        \<lparr>Files = 0, Dirs = 1, Others = 0, Bytes = 0\<rparr>"
  using assms by (cases t; simp)+

lemma scan_contribution:
  "cancel_after w = None \<Longrightarrow> scan s w st t = (w', st', None) \<Longrightarrow>
     st' = add_stats st (contribution s t)"
  "cancel_after w = None \<Longrightarrow> scan_children s w st cs = (w', st', None) \<Longrightarrow>
     st' = add_stats st (sum_stats (map (contribution s) cs))"
proof (induction s w st t and s w st cs arbitrary: w' st' and w' st' rule: scan_induct)
  case (cancelled s w st t)
  then show ?case by simp
next
  case (rejected s w st t)
  then show ?case by (auto simp: scan_rejected contribution_skipped)
next
  case (init_err s w st t e)
  then show ?case by (auto simp: scan_init_err contribution_skipped)
next
  case (unselected s w st t)
  then show ?case by (auto simp: scan_unselected contribution_skipped)
next
  case (regular s w st t)
  then show ?case by (auto simp: scan_regular contribution_counted add_stats_def)
next
  case (other s w st t)
  then show ?case by (auto simp: scan_other contribution_counted add_stats_def)
next
  case (list_err s w st t e)
  then show ?case by (auto simp: scan_list_err contribution_skipped)
next
  case (dir s w st t)
  have l: "cancel_after (listed t w) = None" using dir.prems(1) by simp
  from dir.hyps dir.prems(2) show ?case
  proof (cases rule: scan_dir_cases)
    case (abort e)
    then show ?thesis by simp
  next
    case (finished w2 st2)
    have "st2 = add_stats st (sum_stats (map (contribution s) (Children t)))"
      using dir.IH [OF l finished(1)] by (simp add: sum_stats_sort_key)
    then show ?thesis
      using finished(3) dir.hyps by (simp add: contribution_counted add_stats_def)
  qed
next
  case (nil s w st)
  then show ?case by simp
next
  case (cons s w st c cs)
  from cons.prems(2) show ?case
  proof (cases rule: scan_children_cases)
    case (abort e)
    then show ?thesis by simp
  next
    case (continue w1 st1)
    have "cancel_after w1 = None"
      using scan_frame(1) [OF continue(1)] cons.prems(1) by (rule live_frame)
    then show ?thesis
      using cons.IH(1) [OF cons.prems(1) continue(1)] cons.IH(2) [OF continue(1) _ continue(2)]
      by (simp add: add_stats_assoc)
  qed
qed

lemma scanTree_contribution:
  "cancel_after w = None \<Longrightarrow> scanTree s w st tr = (w', st', None) \<Longrightarrow>
     st' = add_stats st (tree_contribution s tr)"
  "cancel_after w = None \<Longrightarrow> scanTree_nodes s w st nodes names = (w', st', None) \<Longrightarrow>
     st' = add_stats st (sum_stats (map (contribution s) (node_targets nodes names)))"
proof (induction s w st tr and s w st nodes names arbitrary: w' st' and w' st'
    rule: scanTree_induct)
  case (leaf_err s w st fm e)
  then show ?case by (simp add: scanTree_Leaf_err)
next
  case (leaf_ok s w st fm t)
  from leaf_ok.hyps leaf_ok.prems(2) show ?case
  proof (cases rule: scanTree_Leaf_ok_cases)
    case (1 st1)
    then show ?thesis
      using scan_contribution(1) [OF _ 1(1)] leaf_ok.prems(1) leaf_ok.hyps
      by (simp add: tree_contribution_def)
  qed
next
  case (node s w st nodes)
  then show ?case by (simp add: scanTree.simps tree_contribution_def node_targets_def)
next
  case (nil s w st nodes)
  then show ?case by (simp add: node_targets_def)
next
  case (missing s w st nodes name names)
  then show ?case by (simp add: scanTree_nodes_missing node_targets_def)
next
  case (found s w st nodes name names t)
  from found.hyps found.prems(2) show ?case
  proof (cases rule: scanTree_nodes_cases)
    case (abort st1 e)
    then show ?thesis by simp
  next
    case (stop w1)
    then show ?thesis
      using live_frame [OF scanTree_frame(1) [OF stop(1)] found.prems(1)] by simp
  next
    case (continue w1 st1)
    have l: "cancel_after (tick w1) = None"
      using live_frame [OF scanTree_frame(1) [OF continue(1)] found.prems(1)] by simp
    show ?thesis
      using found.IH(1) [OF found.prems(1) continue(1)]
        found.IH(2) [OF continue(1,2) l continue(3)] found.hyps
      by (simp add: tree_contribution_def node_targets_def sum_stats_append add_stats_assoc)
  qed
qed

lemma harmless_ends_with: "ends_with s evs r \<Longrightarrow> harmless s evs \<Longrightarrow> r = None"
proof (rule ccontr)
  assume e: "ends_with s evs r" and h: "harmless s evs" and "r \<noteq> None"
  then have "evs \<noteq> []" and "fatal_err s (last evs) = r"
    by (simp_all add: ends_with_def)
  moreover from this h have "fatal_err s (last evs) = None"
    by (simp add: harmless_def list_all_iff)
  ultimately show False using \<open>r \<noteq> None\<close> by simp
qed

lemma failed_entry_is_skipped:
  assumes "\<not> cancelled w" and "SelectByName s (Name c)"
    and "Init c = Some e \<or> (Init c = None \<and> Select s c \<and> Mode c = ModeDir \<and> ChildrenErr c = Some e)"
    and "Error s (Path c) e = None"
  shows "\<exists>w1. scan s w st c = (w1, st, None) \<and>
    new_events w w1 =
      (if Init c = None then [InitCall (Path c), ChildrenCall (Path c), ErrorCall (Path c) e]
       else [InitCall (Path c), ErrorCall (Path c) e]) \<and>
    contribution s c = ScanStats0 \<and>
    scan_children s w st (c # cs) = scan_children s w1 st cs"
  using assms by (auto simp: scan_init_err scan_list_err contribution_skipped)

text \<open>
  C3, as the code has it. A \<^verbatim>\<open>nil\<close> answer of the policy for an entry that failed does
  not make \<^verbatim>\<open>Scan\<close> return \<^verbatim>\<open>nil\<close> with final statistics that count every other readable
  entry. In \<^verbatim>\<open>/data\<close> the entry \<^verbatim>\<open>b\<close> cannot be initialised and the policy skips every
  error. When the scan is cancelled after \<^verbatim>\<open>b\<close> has been skipped, \<^verbatim>\<open>Scan\<close> returns \<^verbatim>\<open>nil\<close>, but
  the final statistics do not count the readable sibling \<^verbatim>\<open>c\<close> of 30 bytes. When \<^verbatim>\<open>Abs()\<close> of
  a second target fails, \<^verbatim>\<open>Scan\<close> returns that error although the policy has answered \<^verbatim>\<open>nil\<close>
  every time it was asked, and there is no final \<^verbatim>\<open>Result\<close> callback.
\<close>

theorem skipped_error_counterexample:
  "Init locked_file = Some ''permission denied'' \<and>
   Error skip_errors (Path locked_file) ''permission denied'' = None \<and>
   Scan keep_targets flat_tree skip_errors (world0 (Some 3)) [LazyTarget ''/data'' (Inr data_dir)] =
     (\<lparr>cancel_after = Some 3, polls = 5,
        trace = [AbsCall ''/data'' None, InitCall ''/data'', ChildrenCall ''/data'',
          InitCall ''/data/a'',
          ResultCall ''/data/a'' \<lparr>Files = 1, Dirs = 0, Others = 0, Bytes = 10\<rparr>,
          InitCall ''/data/b'', ErrorCall ''/data/b'' ''permission denied'',
          ResultCall ''/data'' \<lparr>Files = 1, Dirs = 1, Others = 0, Bytes = 10\<rparr>,
          ResultCall [] \<lparr>Files = 1, Dirs = 1, Others = 0, Bytes = 10\<rparr>]\<rparr>,
      None) \<and>
   Scan keep_targets flat_tree skip_errors (world0 None)
       [LazyTarget ''/data'' (Inr data_dir),
        LazyTarget ''elsewhere'' (Inl ''getwd: no such file or directory'')] =
     (\<lparr>cancel_after = None, polls = 5,
        trace = [AbsCall ''/data'' None, InitCall ''/data'', ChildrenCall ''/data'',
          InitCall ''/data/a'',
          ResultCall ''/data/a'' \<lparr>Files = 1, Dirs = 0, Others = 0, Bytes = 10\<rparr>,
          InitCall ''/data/b'', ErrorCall ''/data/b'' ''permission denied'',
          InitCall ''/data/c'',
          ResultCall ''/data/c'' \<lparr>Files = 2, Dirs = 0, Others = 0, Bytes = 40\<rparr>,
          ResultCall ''/data'' \<lparr>Files = 2, Dirs = 1, Others = 0, Bytes = 40\<rparr>,
          AbsCall ''elsewhere'' (Some ''getwd: no such file or directory'')]\<rparr>,
      Some ''getwd: no such file or directory'')"
  by code_simp

text \<open>
  C3, amended. Whenever \<^verbatim>\<open>scan\<close> is called on an entry \<open>c\<close>, with the context not cancelled
  and the name of \<open>c\<close> accepted, and \<^verbatim>\<open>Init()\<close> of \<open>c\<close> fails, or \<open>c\<close> is a selected directory
  and \<^verbatim>\<open>Children()\<close> of \<open>c\<close> fails, and the \<^verbatim>\<open>Error\<close> policy answers \<^verbatim>\<open>nil\<close>, then the call
  returns \<^verbatim>\<open>nil\<close> with the statistics it was given; its only events are the failed calls
  and the call of the policy, so that nothing below \<open>c\<close> is visited or reported; \<open>c\<close> adds
  nothing in the sum of the specification; and the loop over \<open>c\<close> and its siblings goes on
  with the siblings. If moreover the tree of the targets is built, the scan is never
  cancelled, no \<^verbatim>\<open>Abs()\<close> call fails and every call of the \<^verbatim>\<open>Error\<close> policy answers \<^verbatim>\<open>nil\<close>, so
  that the events of the scan are harmless, then \<^verbatim>\<open>Scan\<close> returns \<^verbatim>\<open>nil\<close> and the statistics of
  the final \<^verbatim>\<open>Result\<close> callback are the sum of what the specification says the entries add,
  in the arithmetic of the counters: an entry that cannot be initialised or listed, and
  everything below it, counts for nothing and every other entry counts as if no failure
  had happened.
\<close>

theorem skipped_errors_leave_the_rest_counted:
  fixes w w0 :: "'u::len uint world"
  shows "(\<not> cancelled w0 \<and> SelectByName s (Name c) \<and>
       (Init c = Some e \<or>
        (Init c = None \<and> Select s c \<and> Mode c = ModeDir \<and> ChildrenErr c = Some e)) \<and>
       Error s (Path c) e = None \<longrightarrow>
       (\<exists>w1. scan s w0 st0 c = (w1, st0, None) \<and>
          new_events w0 w1 =
            (if Init c = None
             then [InitCall (Path c), ChildrenCall (Path c), ErrorCall (Path c) e]
             else [InitCall (Path c), ErrorCall (Path c) e]) \<and>
          contribution s c = (ScanStats0 :: 'u uint ScanStats) \<and>
          scan_children s w0 st0 (c # cs) = scan_children s w1 st0 cs)) \<and>
    (build_tree resolveRelativeTargets newTree targets = Inr tree \<and> cancel_after w = None \<and>
       Scan resolveRelativeTargets newTree s w targets = (w', r) \<and>
       harmless s (new_events w w') \<longrightarrow>
       r = None \<and>
       (\<exists>evs. new_events w w' = evs @ [ResultCall [] (tree_contribution s tree)]))"
proof (intro conjI impI)
  assume "\<not> cancelled w0 \<and> SelectByName s (Name c) \<and>
       (Init c = Some e \<or>
        (Init c = None \<and> Select s c \<and> Mode c = ModeDir \<and> ChildrenErr c = Some e)) \<and>
       Error s (Path c) e = None"
  then show "\<exists>w1. scan s w0 st0 c = (w1, st0, None) \<and>
          new_events w0 w1 =
            (if Init c = None
             then [InitCall (Path c), ChildrenCall (Path c), ErrorCall (Path c) e]
             else [InitCall (Path c), ErrorCall (Path c) e]) \<and>
          contribution s c = (ScanStats0 :: 'u uint ScanStats) \<and>
          scan_children s w0 st0 (c # cs) = scan_children s w1 st0 cs"
    by (intro failed_entry_is_skipped) simp_all
next
  assume a: "build_tree resolveRelativeTargets newTree targets = Inr tree \<and>
       cancel_after w = None \<and>
       Scan resolveRelativeTargets newTree s w targets = (w', r) \<and>
       harmless s (new_events w w')"
  then have run: "Scan resolveRelativeTargets newTree s w targets = (w', r)" by simp
  from run have "r = None \<and>
    (\<exists>evs. new_events w w' = evs @ [ResultCall [] (tree_contribution s tree)])"
  proof (cases rule: Scan_cases)
    case (unbuilt e)
    with a show ?thesis by simp
  next
    case (abort tree' st1 e)
    have "ends_with s (new_events w w') (Some e)"
      using abort(2) by (rule scanTree_ends_with(1))
    from harmless_ends_with [OF this] a show ?thesis by simp
  next
    case (finished tree' w1 stats)
    with a have t: "scanTree s w ScanStats0 tree = (w1, stats, None)" by simp
    from a have "cancel_after w = None" by simp
    from scanTree_contribution(1) [OF this t] finished show ?thesis by simp
  qed
  then show "r = None"
    and "\<exists>evs. new_events w w' = evs @ [ResultCall [] (tree_contribution s tree)]"
    by simp_all
qed

theorem skipped_errors_leave_the_rest_counted_witness:
  "\<not> cancelled (world0 None) \<and> SelectByName skip_errors (Name locked_file) \<and>
   Init locked_file = Some ''permission denied'' \<and>
   Error skip_errors (Path locked_file) ''permission denied'' = None \<and>
   scan skip_errors (world0 None) ScanStats0 locked_file =
     (\<lparr>cancel_after = None, polls = 1,
        trace = [InitCall ''/data/b'', ErrorCall ''/data/b'' ''permission denied'']\<rparr>,
      ScanStats0, None) \<and>
   scan_children skip_errors (world0 None) ScanStats0
       [locked_file, regular_file ''c'' ''/data/c'' 30] =
     scan_children skip_errors (fst (scan skip_errors (world0 None) ScanStats0 locked_file))
       ScanStats0 [regular_file ''c'' ''/data/c'' 30] \<and>
   build_tree keep_targets flat_tree [LazyTarget ''/data'' (Inr data_dir)] =
     Inr (Node [(''/data'', Leaf (LazyTarget ''/data'' (Inr data_dir)))]) \<and>
   cancel_after (world0 None) = None \<and>
   harmless skip_errors (new_events (world0 None)
     (fst (Scan keep_targets flat_tree skip_errors (world0 None) [LazyTarget ''/data'' (Inr data_dir)]))) \<and>
   snd (Scan keep_targets flat_tree skip_errors (world0 None) [LazyTarget ''/data'' (Inr data_dir)]) = None \<and>
   new_events (world0 None)
     (fst (Scan keep_targets flat_tree skip_errors (world0 None) [LazyTarget ''/data'' (Inr data_dir)])) =
     [AbsCall ''/data'' None, InitCall ''/data'', ChildrenCall ''/data'', InitCall ''/data/a'',
      ResultCall ''/data/a'' \<lparr>Files = 1, Dirs = 0, Others = 0, Bytes = 10\<rparr>,
      InitCall ''/data/b'', ErrorCall ''/data/b'' ''permission denied'', InitCall ''/data/c'',
      ResultCall ''/data/c'' \<lparr>Files = 2, Dirs = 0, Others = 0, Bytes = 40\<rparr>,
      ResultCall ''/data'' \<lparr>Files = 2, Dirs = 1, Others = 0, Bytes = 40\<rparr>,
      ResultCall [] \<lparr>Files = 2, Dirs = 1, Others = 0, Bytes = 40\<rparr>] \<and>
   last (new_events (world0 None)
     (fst (Scan keep_targets flat_tree skip_errors (world0 None) [LazyTarget ''/data'' (Inr data_dir)]))) =
     ResultCall [] (tree_contribution skip_errors
       (Node [(''/data'', Leaf (LazyTarget ''/data'' (Inr data_dir)))]))"
proof -
  let ?run = "Scan keep_targets flat_tree skip_errors (world0 None) [LazyTarget ''/data'' (Inr data_dir)]"
  let ?tree = "Node [(''/data'', Leaf (LazyTarget ''/data'' (Inr data_dir)))]"
  let ?c = "regular_file ''c'' ''/data/c'' 30"
  have live: "cancel_after (world0 None) = None"
    by (simp add: world0_def)
  have built: "build_tree keep_targets flat_tree [LazyTarget ''/data'' (Inr data_dir)] = Inr ?tree"
    by (simp add: build_tree_def keep_targets_def flat_tree_def)
  have run: "?run = (fst ?run, snd ?run)"
    by simp
  have ok: "harmless skip_errors (new_events (world0 None) (fst ?run))"
    by code_simp
  have evs: "new_events (world0 None) (fst ?run) =
     [AbsCall ''/data'' None, InitCall ''/data'', ChildrenCall ''/data'', InitCall ''/data/a'',
      ResultCall ''/data/a'' \<lparr>Files = 1, Dirs = 0, Others = 0, Bytes = 10\<rparr>,
      InitCall ''/data/b'', ErrorCall ''/data/b'' ''permission denied'', InitCall ''/data/c'',
      ResultCall ''/data/c'' \<lparr>Files = 2, Dirs = 0, Others = 0, Bytes = 40\<rparr>,
      ResultCall ''/data'' \<lparr>Files = 2, Dirs = 1, Others = 0, Bytes = 40\<rparr>,
      ResultCall [] \<lparr>Files = 2, Dirs = 1, Others = 0, Bytes = 40\<rparr>]"
    by code_simp
  have child: "\<not> cancelled (world0 None)" "SelectByName skip_errors (Name locked_file)"
    "Init locked_file = Some ''permission denied''"
    "Error skip_errors (Path locked_file) ''permission denied'' = None"
    by (simp_all add: locked_file_def skip_errors_def NewScanner_def cancelled_iff world0_def)
  have skipped: "scan skip_errors (world0 None) ScanStats0 locked_file =
     (\<lparr>cancel_after = None, polls = 1,
        trace = [InitCall ''/data/b'', ErrorCall ''/data/b'' ''permission denied'']\<rparr>,
      ScanStats0, None)"
    by code_simp
  have "\<exists>w1. scan skip_errors (world0 None) ScanStats0 locked_file = (w1, ScanStats0, None) \<and>
      scan_children skip_errors (world0 None) ScanStats0 [locked_file, ?c] =
        scan_children skip_errors w1 ScanStats0 [?c]"
    using skipped_errors_leave_the_rest_counted [where ?w0.0 = "world0 None"
        and s = skip_errors and c = locked_file and e = "''permission denied''"
        and ?st0.0 = ScanStats0 and cs = "[?c]"] child
    by blast
  then have loop: "scan_children skip_errors (world0 None) ScanStats0 [locked_file, ?c] =
      scan_children skip_errors (fst (scan skip_errors (world0 None) ScanStats0 locked_file))
        ScanStats0 [?c]"
    by (elim exE conjE) (simp only: fst_conv)
  have main: "snd ?run = None \<and>
      (\<exists>evs. new_events (world0 None) (fst ?run) =
         evs @ [ResultCall [] (tree_contribution skip_errors ?tree)])"
    using skipped_errors_leave_the_rest_counted [where s = skip_errors and w = "world0 None"
        and resolveRelativeTargets = keep_targets and newTree = flat_tree
        and targets = "[LazyTarget ''/data'' (Inr data_dir)]" and tree = ?tree
        and w' = "fst ?run" and r = "snd ?run"] built live run ok
    by blast
  then have r: "snd ?run = None" by (rule conjunct1)
  from main obtain pre where "new_events (world0 None) (fst ?run) =
      pre @ [ResultCall [] (tree_contribution skip_errors ?tree)]"
    by blast
  then have l: "last (new_events (world0 None) (fst ?run)) =
      ResultCall [] (tree_contribution skip_errors ?tree)"
    by (simp only: last_snoc)
  from child skipped loop built live ok r evs l show ?thesis
    by (simp only: simp_thms)
qed

subsection \<open>Statistics that never fall\<close>

text \<open>
  C8, as the code has it. The counters are unsigned machine integers and the additions
  wrap around; the byte counter is a \<^verbatim>\<open>uint64\<close> on every platform. With three sparse files of \<open>2^63 - 1\<close> bytes the byte counter delivered to
  the \<^verbatim>\<open>Result\<close> callback rises to \<open>2^64 - 2\<close> and then falls to \<open>2^63 - 3\<close>.
\<close>

theorem bytes_wrap_counterexample:
  "map Bytes (result_stats (new_events (world0 None)
       (fst (Scan keep_targets flat_tree NewScanner (world0 None) [LazyTarget ''/vm'' (Inr sparse_dir)])))) =
     [9223372036854775807, 18446744073709551614, 9223372036854775805, 9223372036854775805,
      9223372036854775805] \<and>
   \<not> sorted_wrt stats_le (result_stats (new_events (world0 None)
       (fst (Scan keep_targets flat_tree NewScanner (world0 None) [LazyTarget ''/vm'' (Inr sparse_dir)]))))"
  by code_simp

lemma stats_le_refl [simp]: "stats_le a a"
  by (simp add: stats_le_def)

lemma stats_le_trans: "stats_le a b \<Longrightarrow> stats_le b c \<Longrightarrow> stats_le a c"
  by (auto simp: stats_le_def)

lemma within_refl [simp]: "within st st n b"
  by (simp add: within_def)

lemma within_le: "within a b n c \<Longrightarrow> stats_le a b"
  by (simp add: within_def stats_le_def word_le_nat_alt)

lemma within_trans: "within a b n1 b1 \<Longrightarrow> within b c n2 b2 \<Longrightarrow> within a c (n1 + n2) (b1 + b2)"
  by (auto simp: within_def)

lemma within_mono: "within a b n c \<Longrightarrow> n \<le> n' \<Longrightarrow> c \<le> c' \<Longrightarrow> within a b n' c'"
  by (auto simp: within_def)

lemma room_mono: "room st n b \<Longrightarrow> n' \<le> n \<Longrightarrow> b' \<le> b \<Longrightarrow> room st n' b'"
  by (auto simp: room_def)

lemma room_within: "room st (n1 + n2) (b1 + b2) \<Longrightarrow> within st st1 n1 b1 \<Longrightarrow> room st1 n2 b2"
  by (auto simp: room_def within_def)

lemma unat_succ:
  "unat (x :: 'a::len word) + 1 < 2 ^ LENGTH('a) \<Longrightarrow> unat (x + 1) = unat x + 1"
  using unat_add_lem [of x 1] by simp

lemma unat_plus:
  "unat (x :: 'a::len word) + unat y < 2 ^ LENGTH('a) \<Longrightarrow> unat (x + y) = unat x + unat y"
  using unat_add_lem [of x y] by simp

lemma within_file:
  "room st 1 (unat sz) \<Longrightarrow> within st (st\<lparr>Files := Files st + 1, Bytes := Bytes st + sz\<rparr>) 1 (unat sz)"
  by (simp add: room_def within_def unat_succ unat_plus)

lemma within_dir: "room st 1 0 \<Longrightarrow> within st (st\<lparr>Dirs := Dirs st + 1\<rparr>) 1 0"
  by (simp add: room_def within_def unat_succ)

lemma within_other: "room st 1 0 \<Longrightarrow> within st (st\<lparr>Others := Others st + 1\<rparr>) 1 0"
  by (simp add: room_def within_def unat_succ)

lemma count_entries_unfold: "count_entries t = Suc (sum_list (map count_entries (Children t)))"
  by (cases t) simp

lemma total_size_unfold: "total_size t = unat (Size t) + sum_list (map total_size (Children t))"
  by (cases t) simp

lemma sum_list_insort_key:
  "sum_list (map f (insort_key g x xs)) = (f x :: nat) + sum_list (map f xs)"
  by (induction xs) simp_all

lemma sum_list_sort_key: "sum_list (map f (sort_key g xs)) = (sum_list (map f xs) :: nat)"
  by (induction xs) (simp_all add: sum_list_insort_key)

lemma rising_nil [simp]: "rising st []"
  by (simp add: rising_def)

lemma rising_silent [simp]:
  "rising st (AbsCall p oe # evs) = rising st evs"
  "rising st (InitCall p # evs) = rising st evs"
  "rising st (ChildrenCall p # evs) = rising st evs"
  "rising st (ErrorCall p e # evs) = rising st evs"
  by (simp_all add: rising_def)

lemma sorted_wrt_stats_le_last:
  "sorted_wrt stats_le xs \<Longrightarrow> x \<in> set xs \<Longrightarrow> stats_le x (last xs)"
  by (induction xs) auto

lemma rising_last: "rising st evs \<Longrightarrow> x \<in> set (st # result_stats evs) \<Longrightarrow> stats_le x (latest st evs)"
  unfolding rising_def latest_def by (rule sorted_wrt_stats_le_last)

lemma rising_append:
  assumes "rising st evs" and "rising (latest st evs) evs'"
  shows "rising st (evs @ evs')"
proof -
  have "stats_le x y" if "x \<in> set (st # result_stats evs)" "y \<in> set (result_stats evs')" for x y
  proof -
    have "stats_le x (latest st evs)" using assms(1) that(1) by (rule rising_last)
    moreover have "stats_le (latest st evs) y" using assms(2) that(2) by (simp add: rising_def)
    ultimately show ?thesis by (rule stats_le_trans)
  qed
  then show ?thesis
    using assms by (auto simp: rising_def sorted_wrt_append)
qed

lemma rising_report: "stats_le st st' \<Longrightarrow> rising st [ResultCall p st']"
  by (simp add: rising_def)

lemma count_entries_pos: "1 \<le> count_entries t"
  by (simp add: count_entries_unfold [of t])

lemma total_size_ge: "unat (Size t) \<le> total_size t"
  by (simp add: total_size_unfold [of t])

lemma scan_rising:
  "room st (count_entries t) (total_size t) \<Longrightarrow> scan s w st t = (w', st', r) \<Longrightarrow>
     rising st (new_events w w') \<and> within st st' (count_entries t) (total_size t)"
  "room st (sum_list (map count_entries cs)) (sum_list (map total_size cs)) \<Longrightarrow>
     scan_children s w st cs = (w', st', r) \<Longrightarrow>
     rising st (new_events w w') \<and>
     within st st' (sum_list (map count_entries cs)) (sum_list (map total_size cs))"
proof (induction s w st t and s w st cs arbitrary: w' st' r and w' st' r rule: scan_induct)
  case (regular s w st t)
  let ?st1 = "st\<lparr>Files := Files st + 1, Bytes := Bytes st + Size t\<rparr>"
  have "room st 1 (unat (Size t))"
    using regular.prems(1) count_entries_pos total_size_ge by (rule room_mono)
  then have w1: "within st ?st1 1 (unat (Size t))" by (rule within_file)
  then have "within st ?st1 (count_entries t) (total_size t)"
    using count_entries_pos total_size_ge by (rule within_mono)
  moreover have "rising st [InitCall (Path t), ResultCall (Path t) ?st1]"
    using within_le [OF w1] by (simp add: rising_report)
  ultimately show ?case using regular.hyps regular.prems(2) by (auto simp: scan_regular)
next
  case (other s w st t)
  let ?st1 = "st\<lparr>Others := Others st + 1\<rparr>"
  have "room st 1 0"
    using other.prems(1) count_entries_pos by (rule room_mono) simp
  then have w1: "within st ?st1 1 0" by (rule within_other)
  then have "within st ?st1 (count_entries t) (total_size t)"
    using count_entries_pos by (rule within_mono) simp
  moreover have "rising st [InitCall (Path t), ResultCall (Path t) ?st1]"
    using within_le [OF w1] by (simp add: rising_report)
  ultimately show ?case using other.hyps other.prems(2) by (auto simp: scan_other)
next
  case (dir s w st t)
  let ?n = "sum_list (map count_entries (Children t))"
  let ?b = "sum_list (map total_size (Children t))"
  have cnt: "count_entries t = ?n + 1" and sz: "total_size t = ?b + unat (Size t)"
    by (simp_all add: count_entries_unfold [of t] total_size_unfold [of t])
  have kids_room: "room st (sum_list (map count_entries (sort_key Name (Children t))))
      (sum_list (map total_size (sort_key Name (Children t))))"
    using dir.prems(1) unfolding sum_list_sort_key cnt sz by (rule room_mono) simp_all
  from dir.hyps dir.prems(2) show ?case
  proof (cases rule: scan_dir_cases)
    case (abort e)
    from dir.IH [OF kids_room abort(1)]
    have "rising st (new_events (listed t w) w')" and "within st st' ?n ?b"
      by (simp_all add: sum_list_sort_key)
    then show ?thesis
      using abort(3) within_mono [of st st' ?n ?b "count_entries t" "total_size t"]
      by (simp add: cnt sz)
  next
    case (finished w2 st2)
    from dir.IH [OF kids_room finished(1)]
    have r2: "rising st (new_events (listed t w) w2)" and w2: "within st st2 ?n ?b"
      by (simp_all add: sum_list_sort_key)
    have l2: "st2 = latest st (new_events (listed t w) w2)"
      using finished(1) by (rule scan_latest(2))
    have "room st (?n + 1) (?b + 0)"
      using dir.prems(1) unfolding cnt sz by (rule room_mono) simp_all
    then have "room st2 1 0" using w2 by (rule room_within)
    then have w3: "within st2 st' 1 0" unfolding finished(3) by (rule within_dir)
    have "within st st' (?n + 1) (?b + 0)" using w2 w3 by (rule within_trans)
    then have "within st st' (count_entries t) (total_size t)"
      unfolding cnt sz by (rule within_mono) simp_all
    moreover have "rising st (new_events (listed t w) w2 @ [ResultCall (Path t) st'])"
      using r2 within_le [OF w3] l2 by (intro rising_append) (simp_all add: rising_report)
    ultimately show ?thesis using finished(5) by simp
  qed
next
  case (nil s w st)
  then show ?case by simp
next
  case (cons s w st c cs)
  let ?n = "sum_list (map count_entries cs)"
  let ?b = "sum_list (map total_size cs)"
  have room1: "room st (count_entries c) (total_size c)"
    using cons.prems(1) by (rule room_mono) simp_all
  from cons.prems(2) show ?case
  proof (cases rule: scan_children_cases)
    case (abort e)
    from cons.IH(1) [OF room1 abort(1)]
    have "rising st (new_events w w')" and "within st st' (count_entries c) (total_size c)"
      by simp_all
    then show ?thesis
      using within_mono [of st st' "count_entries c" "total_size c" "count_entries c + ?n"
          "total_size c + ?b"] by simp
  next
    case (continue w1 st1)
    from cons.IH(1) [OF room1 continue(1)]
    have r1: "rising st (new_events w w1)" and w1: "within st st1 (count_entries c) (total_size c)"
      by simp_all
    have l1: "st1 = latest st (new_events w w1)"
      using continue(1) by (rule scan_latest(1))
    have "room st (count_entries c + ?n) (total_size c + ?b)"
      using cons.prems(1) by simp
    then have "room st1 ?n ?b" using w1 by (rule room_within)
    from cons.IH(2) [OF continue(1) this continue(2)]
    have r2: "rising st1 (new_events w1 w')" and w2: "within st1 st' ?n ?b"
      by simp_all
    have "rising st (new_events w w1 @ new_events w1 w')"
      using r1 r2 l1 by (intro rising_append) simp_all
    moreover have "within st st' (count_entries c + ?n) (total_size c + ?b)"
      using w1 w2 by (rule within_trans)
    ultimately show ?thesis using continue(3) by simp
  qed
qed (auto simp: scan_cancelled scan_rejected scan_unselected scan_init_err scan_list_err)

lemma node_targets_simps [simp]:
  "node_targets nodes [] = []"
  "map_of nodes name = None \<Longrightarrow> node_targets nodes (name # names) = node_targets nodes names"
  "map_of nodes name = Some t \<Longrightarrow>
     node_targets nodes (name # names) = leaf_targets t @ node_targets nodes names"
  by (simp_all add: node_targets_def)

lemma leaf_targets_Node: "leaf_targets (Node nodes) = node_targets nodes (NodeNames nodes)"
  by (simp add: node_targets_def)

lemma scanTree_rising:
  "room st (tree_entries tr) (tree_size tr) \<Longrightarrow> scanTree s w st tr = (w', st', r) \<Longrightarrow>
     rising st (new_events w w') \<and> (r = None \<longrightarrow> within st st' (tree_entries tr) (tree_size tr))"
  "room st (sum_list (map count_entries (node_targets nodes names)))
      (sum_list (map total_size (node_targets nodes names))) \<Longrightarrow>
     scanTree_nodes s w st nodes names = (w', st', r) \<Longrightarrow>
     rising st (new_events w w') \<and>
     (r = None \<longrightarrow> within st st' (sum_list (map count_entries (node_targets nodes names)))
        (sum_list (map total_size (node_targets nodes names))))"
proof (induction s w st tr and s w st nodes names arbitrary: w' st' r and w' st' r
    rule: scanTree_induct)
  case (leaf_err s w st fm e)
  then show ?case by (auto simp: scanTree_Leaf_err new_events_emit)
next
  case (leaf_ok s w st fm t)
  have room1: "room st (count_entries t) (total_size t)"
    using leaf_ok.prems(1) leaf_ok.hyps by (simp add: tree_entries_def tree_size_def)
  from leaf_ok.hyps leaf_ok.prems(2) show ?case
  proof (cases rule: scanTree_Leaf_ok_cases)
    case (1 st1)
    then show ?thesis
      using scan_rising(1) [OF room1 1(1)] leaf_ok.hyps
      by (simp add: tree_entries_def tree_size_def)
  qed
next
  case (node s w st nodes)
  then show ?case
    by (simp add: scanTree.simps tree_entries_def tree_size_def leaf_targets_Node
        del: leaf_targets.simps(2))
next
  case (nil s w st nodes)
  then show ?case by auto
next
  case (missing s w st nodes name names)
  then show ?case by (simp add: scanTree_nodes_missing)
next
  case (found s w st nodes name names t)
  let ?n = "sum_list (map count_entries (node_targets nodes names))"
  let ?b = "sum_list (map total_size (node_targets nodes names))"
  have all: "room st (tree_entries t + ?n) (tree_size t + ?b)"
    using found.prems(1) found.hyps by (simp add: tree_entries_def tree_size_def)
  then have room1: "room st (tree_entries t) (tree_size t)"
    by (rule room_mono) simp_all
  have total: "sum_list (map count_entries (node_targets nodes (name # names))) = tree_entries t + ?n"
    "sum_list (map total_size (node_targets nodes (name # names))) = tree_size t + ?b"
    using found.hyps by (simp_all add: tree_entries_def tree_size_def)
  from found.hyps found.prems(2) show ?case
  proof (cases rule: scanTree_nodes_cases)
    case (abort st1 e)
    then show ?thesis using found.IH(1) [OF room1 abort(1)] by simp
  next
    case (stop w1)
    from found.IH(1) [OF room1 stop(1)]
    have "rising st (new_events w w1)" and "within st st' (tree_entries t) (tree_size t)"
      by simp_all
    then show ?thesis
      unfolding total using stop(5)
        within_mono [of st st' "tree_entries t" "tree_size t" "tree_entries t + ?n" "tree_size t + ?b"]
      by simp
  next
    case (continue w1 st1)
    from found.IH(1) [OF room1 continue(1)]
    have r1: "rising st (new_events w w1)" and w1: "within st st1 (tree_entries t) (tree_size t)"
      by simp_all
    have l1: "st1 = latest st (new_events w w1)"
      using continue(1) by (rule scanTree_latest(1))
    have "room st1 ?n ?b" using all w1 by (rule room_within)
    from found.IH(2) [OF continue(1,2) this continue(3)]
    have r2: "rising st1 (new_events (tick w1) w')" and w2: "r = None \<longrightarrow> within st1 st' ?n ?b"
      by simp_all
    have "rising st (new_events w w1 @ new_events (tick w1) w')"
      using r1 r2 l1 by (intro rising_append) simp_all
    moreover have "r = None \<longrightarrow> within st st' (tree_entries t + ?n) (tree_size t + ?b)"
      using w1 w2 within_trans by blast
    ultimately show ?thesis unfolding total using continue(4) by simp
  qed
qed

text \<open>
  C8, amended. Whenever \<^verbatim>\<open>Scan\<close> returns \<^verbatim>\<open>nil\<close>, its last event is the \<^verbatim>\<open>Result\<close> callback
  with the empty path, and it carries the cumulative statistics: the ones delivered last
  before it (the zero value, if there are none). If the targets hold fewer entries than
  a \<^verbatim>\<open>uint\<close> of the platform can count, that is fewer than \<open>2^32\<close> on a 32-bit platform and
  fewer than \<open>2^64\<close> on a 64-bit one, and fewer than \<open>2^64\<close> bytes, so that no counter wraps
  around, then the statistics delivered to the \<^verbatim>\<open>Result\<close> callback never fall from one call
  to a later one, in any field, starting from the zero value and up to the final
  delivery. \<open>LENGTH('u)\<close> is the width of \<^verbatim>\<open>uint\<close>.
\<close>

theorem stats_rise_without_overflow:
  fixes w :: "'u::len uint world"
  assumes "build_tree resolveRelativeTargets newTree targets = Inr tree"
    and "Scan resolveRelativeTargets newTree s w targets = (w', r)"
  shows "(r = None \<longrightarrow>
       (\<exists>evs stats. new_events w w' = evs @ [ResultCall [] stats] \<and>
          stats = latest ScanStats0 evs)) \<and>
    (tree_entries tree < 2 ^ LENGTH('u) \<and> tree_size tree < 2 ^ 64 \<longrightarrow>
       sorted_wrt stats_le (ScanStats0 # result_stats (new_events w w')))"
  using assms(2)
proof (cases rule: Scan_cases)
  case (unbuilt e)
  with assms(1) show ?thesis by simp
next
  case (abort tree' st1 e)
  with assms(1) have t: "scanTree s w ScanStats0 tree = (w', st1, Some e)" by simp
  have "sorted_wrt stats_le (ScanStats0 # result_stats (new_events w w'))"
    if "tree_entries tree < 2 ^ LENGTH('u)" "tree_size tree < 2 ^ 64"
  proof -
    have "room (ScanStats0 :: 'u uint ScanStats) (tree_entries tree) (tree_size tree)"
      using that by (simp add: room_def ScanStats0_def)
    from scanTree_rising(1) [OF this t] show ?thesis by (simp add: rising_def)
  qed
  with abort(3) show ?thesis by simp
next
  case (finished tree' w1 stats)
  with assms(1) have t: "scanTree s w ScanStats0 tree = (w1, stats, None)" by simp
  have l1: "stats = latest ScanStats0 (new_events w w1)"
    using t by (rule scanTree_latest(1))
  have "sorted_wrt stats_le (ScanStats0 # result_stats (new_events w w'))"
    if "tree_entries tree < 2 ^ LENGTH('u)" "tree_size tree < 2 ^ 64"
  proof -
    have "room (ScanStats0 :: 'u uint ScanStats) (tree_entries tree) (tree_size tree)"
      using that by (simp add: room_def ScanStats0_def)
    from scanTree_rising(1) [OF this t] have "rising ScanStats0 (new_events w w1)"
      by simp
    then have "rising ScanStats0 (new_events w w1 @ [ResultCall [] stats])"
      using l1 by (intro rising_append) (simp_all add: rising_report)
    then show ?thesis using finished(5) by (simp add: rising_def)
  qed
  with finished(4,5) l1 show ?thesis by blast
qed

theorem stats_rise_without_overflow_witness:
  "build_tree keep_targets flat_tree [LazyTarget ''/home'' (Inr home_dir)] =
     Inr (Node [(''/home'', Leaf (LazyTarget ''/home'' (Inr home_dir)))]) \<and>
   tree_entries (Node [(''/home'', Leaf (LazyTarget ''/home'' (Inr home_dir)))]) = 4 \<and>
   tree_size (Node [(''/home'', Leaf (LazyTarget ''/home'' (Inr home_dir)))]) = 12 \<and>
   result_stats (new_events (world0 None)
     (fst (Scan keep_targets flat_tree NewScanner (world0 None) [LazyTarget ''/home'' (Inr home_dir)]))) =
     [\<lparr>Files = 1, Dirs = 0, Others = 0, Bytes = 5\<rparr>, \<lparr>Files = 1, Dirs = 1, Others = 0, Bytes = 5\<rparr>,
      \<lparr>Files = 2, Dirs = 1, Others = 0, Bytes = 12\<rparr>, \<lparr>Files = 2, Dirs = 2, Others = 0, Bytes = 12\<rparr>,
      \<lparr>Files = 2, Dirs = 2, Others = 0, Bytes = 12\<rparr>] \<and>
   sorted_wrt stats_le (ScanStats0 # result_stats (new_events (world0 None)
     (fst (Scan keep_targets flat_tree NewScanner (world0 None) [LazyTarget ''/home'' (Inr home_dir)])))) \<and>
   snd (Scan keep_targets flat_tree NewScanner (world0 None) [LazyTarget ''/home'' (Inr home_dir)]) = None \<and>
   sorted_wrt stats_le (ScanStats0 # result_stats (new_events (world32 None)
     (fst (Scan keep_targets flat_tree NewScanner (world32 None) [LazyTarget ''/home'' (Inr home_dir)])))) \<and>
   snd (Scan keep_targets flat_tree NewScanner (world32 None) [LazyTarget ''/home'' (Inr home_dir)]) = None"
proof -
  let ?run = "Scan keep_targets flat_tree NewScanner (world0 None) [LazyTarget ''/home'' (Inr home_dir)]"
  let ?run32 = "Scan keep_targets flat_tree NewScanner (world32 None) [LazyTarget ''/home'' (Inr home_dir)]"
  let ?tree = "Node [(''/home'', Leaf (LazyTarget ''/home'' (Inr home_dir)))]"
  have built: "build_tree keep_targets flat_tree [LazyTarget ''/home'' (Inr home_dir)] = Inr ?tree"
    by (simp add: build_tree_def keep_targets_def flat_tree_def)
  have n: "tree_entries ?tree = 4" and b: "tree_size ?tree = 12"
    by code_simp+
  have small: "tree_entries ?tree < 2 ^ LENGTH(64)" "tree_size ?tree < 2 ^ 64"
    unfolding n b by simp_all
  have small32: "tree_entries ?tree < 2 ^ LENGTH(32)"
    unfolding n by simp
  have run: "?run = (fst ?run, snd ?run)" and run32: "?run32 = (fst ?run32, snd ?run32)"
    by simp_all
  have res: "result_stats (new_events (world0 None) (fst ?run)) =
     [\<lparr>Files = 1, Dirs = 0, Others = 0, Bytes = 5\<rparr>, \<lparr>Files = 1, Dirs = 1, Others = 0, Bytes = 5\<rparr>,
      \<lparr>Files = 2, Dirs = 1, Others = 0, Bytes = 12\<rparr>, \<lparr>Files = 2, Dirs = 2, Others = 0, Bytes = 12\<rparr>,
      \<lparr>Files = 2, Dirs = 2, Others = 0, Bytes = 12\<rparr>]"
    by code_simp
  have r: "snd ?run = None" and r32: "snd ?run32 = None"
    by code_simp+
  from stats_rise_without_overflow [OF built run] small
  have up: "sorted_wrt stats_le (ScanStats0 # result_stats (new_events (world0 None) (fst ?run)))"
    by blast
  from stats_rise_without_overflow [OF built run32] small32 small(2)
  have up32: "sorted_wrt stats_le (ScanStats0 # result_stats (new_events (world32 None) (fst ?run32)))"
    by blast
  from built n b res up r up32 r32 show ?thesis
    by (simp only: simp_thms)
qed

subsection \<open>Independence of the enumeration order\<close>

lemma same_listing_fields:
  "same_listing t t' \<Longrightarrow> Name t = Name t' \<and> Path t = Path t' \<and> Init t = Init t' \<and>
     Mode t = Mode t' \<and> Size t = Size t' \<and> ChildrenErr t = ChildrenErr t'"
  by (erule same_listing.cases) simp

lemma list_all2_insort_key:
  assumes "list_all2 R xs ys" and "R x y" and "f x = g y"
    and "list_all2 (\<lambda>a b. f a = g b) xs ys"
  shows "list_all2 R (insort_key f x xs) (insort_key g y ys)"
  using assms(1,4) assms(2,3)
  by (induction xs ys rule: list_all2_induct) auto

lemma list_all2_sort_key:
  assumes "list_all2 R xs ys" and "list_all2 (\<lambda>a b. f a = g b) xs ys"
  shows "list_all2 R (sort_key f xs) (sort_key g ys) \<and>
    list_all2 (\<lambda>a b. f a = g b) (sort_key f xs) (sort_key g ys)"
  using assms
proof (induction xs ys rule: list_all2_induct)
  case Nil
  then show ?case by simp
next
  case (Cons x xs y ys)
  then show ?case
    by (auto intro!: list_all2_insort_key)
qed

lemma scan_children_pointwise:
  fixes w :: "'u::len uint world"
  shows "list_all2 (\<lambda>x y. \<forall>(w :: 'u uint world) st. scan s w st x = scan s w st y) xs ys \<Longrightarrow>
     scan_children s w st xs = scan_children s w st ys"
  by (induction xs ys arbitrary: w st rule: list_all2_induct) (simp_all split: prod.splits option.splits)

lemma scan_depends_on:
  assumes "Name t = Name t'" and "Path t = Path t'" and "Init t = Init t'" and "Mode t = Mode t'"
    and "Size t = Size t'" and "ChildrenErr t = ChildrenErr t'" and "Select s t = Select s t'"
    and kids: "\<And>v. scan_children s v st (sort_key Name (Children t)) =
      scan_children s v st (sort_key Name (Children t'))"
  shows "scan s w st t = scan s w st t'"
proof -
  have e: "entered t' w = entered t w" and l: "listed t' w = listed t w"
    using assms(2) by (simp_all add: entered_def listed_def)
  note same = assms(1-7) [symmetric] e l
  show ?thesis
  proof (cases "cancelled w")
    case True
    then show ?thesis by (simp add: scan_cancelled)
  next
    case live: False
    show ?thesis
    proof (cases "SelectByName s (Name t)")
      case False
      with live show ?thesis by (simp add: scan_rejected same)
    next
      case sel: True
      show ?thesis
      proof (cases "Init t")
        case (Some err)
        with live sel show ?thesis by (simp add: scan_init_err same)
      next
        case init: None
        show ?thesis
        proof (cases "Select s t")
          case False
          with live sel init show ?thesis by (simp add: scan_unselected same)
        next
          case sel2: True
          show ?thesis
          proof (cases "Mode t")
            case ModeRegular
            with live sel init sel2 show ?thesis by (simp add: scan_regular same)
          next
            case ModeOther
            with live sel init sel2 show ?thesis by (simp add: scan_other same)
          next
            case ModeDir
            show ?thesis
            proof (cases "ChildrenErr t")
              case (Some err)
              with live sel init sel2 ModeDir show ?thesis
                by (simp add: scan_list_err same)
            next
              case None
              with live sel init sel2 ModeDir show ?thesis
                by (simp add: scan_dir same kids [symmetric] split: prod.splits option.splits)
            qed
          qed
        qed
      qed
    qed
  qed
qed

lemma same_listing_scan:
  fixes w :: "'u::len uint world"
  shows "same_listing t t' \<Longrightarrow> scan NewScanner w st t = scan NewScanner w st t'"
proof (induction t t' arbitrary: w st rule: same_listing.induct)
  case (reorder cs ds cs' n p i m sz ce)
  have names: "list_all2 (\<lambda>a b. Name a = Name b) cs ds"
    using reorder.IH by (rule list_all2_mono) (simp add: same_listing_fields)
  have eq: "list_all2 (\<lambda>x y. \<forall>(w :: 'u uint world) st. scan NewScanner w st x = scan NewScanner w st y) cs ds"
    using reorder.IH by (rule list_all2_mono) simp
  have sorted_eq: "list_all2 (\<lambda>x y. \<forall>(w :: 'u uint world) st. scan NewScanner w st x = scan NewScanner w st y)
      (sort_key Name cs) (sort_key Name ds)"
    using list_all2_sort_key [OF eq names] by simp
  have "map Name cs = map Name ds"
    using names by (induction cs ds rule: list_all2_induct) simp_all
  then have "distinct (map Name ds)" using reorder.hyps(2) by simp
  then have "inj_on Name (set ds)" by (simp add: distinct_map)
  with reorder.hyps(1) have perm: "sort_key Name ds = sort_key Name cs'"
    by (intro sort_key_eq_sort_key)
  have kids: "scan_children NewScanner v st (sort_key Name cs) =
      scan_children NewScanner v st (sort_key Name cs')" for v
    using scan_children_pointwise [OF sorted_eq] perm by simp
  show ?case
  proof (rule scan_depends_on)
    show "Select NewScanner (LazyFileMetadata n p i m sz cs ce) =
        Select NewScanner (LazyFileMetadata n p i m sz cs' ce)"
      by (simp add: NewScanner_def)
  qed (simp_all add: kids)
qed

lemma map_of_rel:
  "list_all2 (rel_prod (=) R) xs ys \<Longrightarrow> rel_option R (map_of xs k) (map_of ys k)"
  by (induction xs ys rule: list_all2_induct) auto

lemma keys_rel: "list_all2 (rel_prod (=) R) xs ys \<Longrightarrow> map fst xs = map fst ys"
  by (induction xs ys rule: list_all2_induct) auto

lemma NodeNames_perm: "mset ms = mset ns \<Longrightarrow> NodeNames ms = NodeNames ns"
proof -
  assume "mset ms = mset ns"
  then have "set (map fst ms) = set (map fst ns)"
    by (metis mset_map set_mset_mset)
  then show ?thesis
    unfolding NodeNames_def
    by (intro sorted_distinct_set_unique) simp_all
qed

lemma map_of_perm:
  "mset ms = mset ns \<Longrightarrow> distinct (map fst ms) \<Longrightarrow> map_of ms = map_of ns"
proof -
  assume m: "mset ms = mset ns" and d: "distinct (map fst ms)"
  have "mset (map fst ms) = mset (map fst ns)" using m by (metis mset_map)
  then have "distinct (map fst ns)" using d by (metis mset_eq_imp_distinct_iff)
  moreover have "set ms = set ns" using m by (metis set_mset_mset)
  ultimately show ?thesis using d by (simp add: map_of_inject_set)
qed

lemma scanTree_nodes_pointwise:
  fixes w :: "'u::len uint world"
  assumes "\<And>k. rel_option (\<lambda>t t'. \<forall>(w :: 'u uint world) st. scanTree s w st t = scanTree s w st t')
      (map_of ns k) (map_of ns' k)"
  shows "scanTree_nodes s w st ns names = scanTree_nodes s w st ns' names"
proof (induction names arbitrary: w st)
  case Nil
  show ?case by simp
next
  case (Cons name names)
  show ?case
  proof (cases "map_of ns name")
    case None
    with assms [of name] have "map_of ns' name = None" by (cases "map_of ns' name") simp_all
    with None Cons show ?thesis by (simp add: scanTree_nodes_missing)
  next
    case (Some t)
    with assms [of name] obtain t' where t': "map_of ns' name = Some t'"
      and eq: "\<And>(w :: 'u uint world) st. scanTree s w st t = scanTree s w st t'"
      by (cases "map_of ns' name") simp_all
    show ?thesis
      by (simp add: scanTree_nodes_found [OF Some] scanTree_nodes_found [OF t'] eq Cons
          split: prod.splits option.splits)
  qed
qed

lemma same_tree_scanTree:
  fixes w :: "'u::len uint world"
  shows "same_tree tr tr' \<Longrightarrow> scanTree NewScanner w st tr = scanTree NewScanner w st tr'"
proof (induction tr tr' arbitrary: w st rule: same_tree.induct)
  case (leaf a a' p)
  then show ?case
    by (cases a; cases a') (simp_all add: scanTree.simps same_listing_scan)
next
  case (node ns ms ns')
  have keys: "map fst ns = map fst ms"
    using node.IH by (rule keys_rel)
  then have d: "distinct (map fst ms)" using node.hyps(2) by simp
  have names: "NodeNames ns = NodeNames ns'"
    using keys NodeNames_perm [OF node.hyps(1)] by (simp add: NodeNames_def)
  have look: "map_of ms = map_of ns'"
    using node.hyps(1) d by (rule map_of_perm)
  have "rel_option (\<lambda>t t'. \<forall>(w :: 'u uint world) st. scanTree NewScanner w st t = scanTree NewScanner w st t')
      (map_of ns k) (map_of ns' k)" for k
    using map_of_rel [OF node.IH, of k] unfolding look
    by (rule option.rel_mono_strong) simp
  then have "scanTree_nodes NewScanner w st ns (NodeNames ns) =
      scanTree_nodes NewScanner w st ns' (NodeNames ns)"
    by (rule scanTree_nodes_pointwise)
  then show ?case by (simp add: scanTree.simps names)
qed

lemma Scan_built:
  "build_tree resolveRelativeTargets newTree targets = Inr tree \<Longrightarrow>
   Scan resolveRelativeTargets newTree s w targets =
     (case scanTree s w ScanStats0 tree of
        (w1, stats, Some err) \<Rightarrow> (w1, Some err)
      | (w1, stats, None) \<Rightarrow> (emit (ResultCall [] stats) w1, None))"
  by (auto simp: Scan_def build_tree_def split: sum.splits)

text \<open>
  C6. \<^verbatim>\<open>Scan\<close> is a function of the snapshot and of the moment of cancellation, so two
  scans of identical inputs agree by definition. What can differ between two runs over
  one file system is the order in which a directory lists its children and the order in
  which the map of a tree node is iterated. With the default policies neither matters:
  two scans whose trees and snapshots are the same up to these orders end in the same
  world, with the same events in the same order (so the same \<^verbatim>\<open>Result\<close> calls with the
  same paths and statistics), and return the same error.
\<close>

theorem scan_is_independent_of_enumeration_order:
  assumes "build_tree resolveRelativeTargets newTree targets = Inr tree"
    and "build_tree resolveRelativeTargets' newTree' targets' = Inr tree'"
    and "same_tree tree tree'"
  shows "Scan resolveRelativeTargets newTree NewScanner w targets =
    Scan resolveRelativeTargets' newTree' NewScanner w targets'"
  by (simp add: same_tree_scanTree [OF assms(3)] Scan_built [OF assms(1)] Scan_built [OF assms(2)])

lemma same_listing_file: "same_listing (regular_file n p sz) (regular_file n p sz)"
  unfolding regular_file_def using same_listing.reorder [of "[]" "[]" "[]"] by simp

lemma same_listing_scenario_D: "same_listing scenario_D scenario_D_shuffled"
  unfolding scenario_D_def scenario_D_shuffled_def directory_def
proof (rule same_listing.reorder)
  show "list_all2 same_listing
     [regular_file ''B'' ''/d/B'' 1, regular_file ''a'' ''/d/a'' 2, regular_file ''c'' ''/d/c'' 3]
     [regular_file ''B'' ''/d/B'' 1, regular_file ''a'' ''/d/a'' 2, regular_file ''c'' ''/d/c'' 3]"
    by (simp add: same_listing_file)
  show "mset [regular_file ''B'' ''/d/B'' 1, regular_file ''a'' ''/d/a'' 2, regular_file ''c'' ''/d/c'' 3] =
     mset [regular_file ''c'' ''/d/c'' 3, regular_file ''B'' ''/d/B'' 1, regular_file ''a'' ''/d/a'' 2]"
    by simp
  show "distinct (map Name
     [regular_file ''B'' ''/d/B'' 1, regular_file ''a'' ''/d/a'' 2, regular_file ''c'' ''/d/c'' 3])"
    by (simp add: regular_file_def)
qed

theorem scan_is_independent_of_enumeration_order_witness:
  "build_tree keep_targets flat_tree targets_D =
     Inr (Node [(''/d'', Leaf (LazyTarget ''/d'' (Inr scenario_D))),
                (''/z'', Leaf (LazyTarget ''/z'' (Inr (regular_file ''z'' ''/z'' 1))))]) \<and>
   build_tree keep_targets flat_tree targets_D_again =
     Inr (Node [(''/z'', Leaf (LazyTarget ''/z'' (Inr (regular_file ''z'' ''/z'' 1)))),
                (''/d'', Leaf (LazyTarget ''/d'' (Inr scenario_D_shuffled)))]) \<and>
   same_tree
     (Node [(''/d'', Leaf (LazyTarget ''/d'' (Inr scenario_D))),
            (''/z'', Leaf (LazyTarget ''/z'' (Inr (regular_file ''z'' ''/z'' 1))))])
     (Node [(''/z'', Leaf (LazyTarget ''/z'' (Inr (regular_file ''z'' ''/z'' 1)))),
            (''/d'', Leaf (LazyTarget ''/d'' (Inr scenario_D_shuffled)))]) \<and>
   Scan keep_targets flat_tree NewScanner (world0 None) targets_D =
     Scan keep_targets flat_tree NewScanner (world0 None) targets_D_again \<and>
   result_paths (trace (fst (Scan keep_targets flat_tree NewScanner (world0 None) targets_D_again))) =
     [''/d/B'', ''/d/a'', ''/d/c'', ''/d'', ''/z'', []]"
proof -
  let ?t1 = "Node [(''/d'', Leaf (LazyTarget ''/d'' (Inr scenario_D))),
                (''/z'', Leaf (LazyTarget ''/z'' (Inr (regular_file ''z'' ''/z'' 1))))]"
  let ?t2 = "Node [(''/z'', Leaf (LazyTarget ''/z'' (Inr (regular_file ''z'' ''/z'' 1)))),
                (''/d'', Leaf (LazyTarget ''/d'' (Inr scenario_D_shuffled)))]"
  let ?m = "[(''/d'', Leaf (LazyTarget ''/d'' (Inr scenario_D_shuffled))),
             (''/z'', Leaf (LazyTarget ''/z'' (Inr (regular_file ''z'' ''/z'' 1))))]"
  have b1: "build_tree keep_targets flat_tree targets_D = Inr ?t1"
    by (simp add: build_tree_def keep_targets_def flat_tree_def targets_D_def)
  have b2: "build_tree keep_targets flat_tree targets_D_again = Inr ?t2"
    by (simp add: build_tree_def keep_targets_def flat_tree_def targets_D_again_def)
  have leaf_d: "same_tree (Leaf (LazyTarget ''/d'' (Inr scenario_D)))
      (Leaf (LazyTarget ''/d'' (Inr scenario_D_shuffled)))"
    by (rule same_tree.leaf) (simp add: same_listing_scenario_D)
  have leaf_z: "same_tree (Leaf (LazyTarget ''/z'' (Inr (regular_file ''z'' ''/z'' 1))))
      (Leaf (LazyTarget ''/z'' (Inr (regular_file ''z'' ''/z'' 1))))"
    by (rule same_tree.leaf) (simp add: same_listing_file)
  have same: "same_tree ?t1 ?t2"
  proof (rule same_tree.node [where ms = ?m])
    show "list_all2 (rel_prod (=) same_tree)
        [(''/d'', Leaf (LazyTarget ''/d'' (Inr scenario_D))),
         (''/z'', Leaf (LazyTarget ''/z'' (Inr (regular_file ''z'' ''/z'' 1))))] ?m"
      using leaf_d leaf_z by simp
    show "mset ?m = mset [(''/z'', Leaf (LazyTarget ''/z'' (Inr (regular_file ''z'' ''/z'' 1)))),
        (''/d'', Leaf (LazyTarget ''/d'' (Inr scenario_D_shuffled)))]"
      by simp
    show "distinct (map fst [(''/d'', Leaf (LazyTarget ''/d'' (Inr scenario_D))),
        (''/z'', Leaf (LazyTarget ''/z'' (Inr (regular_file ''z'' ''/z'' 1))))])"
      by simp
  qed
  have paths: "result_paths (trace (fst (Scan keep_targets flat_tree NewScanner (world0 None)
      targets_D_again))) = [''/d/B'', ''/d/a'', ''/d/c'', ''/d'', ''/z'', []]"
    by code_simp
  from scan_is_independent_of_enumeration_order [OF b1 b2 same] b1 b2 same paths
  show ?thesis by simp
qed

end
